theory Spec2Isabelle
  imports Main "HOL-Library.Sublist"
begin

section \<open>Data model\<close>

text \<open>
  The prompt builder keeps one application state: the ordered component list, the saved
  templates and the variable mapping.  A JavaScript number used as an id is an integer
  (a reading of \<open>Date.now()\<close>), modelled as \<open>int\<close>.  The optional fields of a component are
  \<open>string option\<close>; \<open>None\<close> is JavaScript's \<open>undefined\<close>.  Strings are lists of 8-bit
  characters, i.e. the code units up to U+00FF.
\<close>

record component =
  c_id :: int
  c_type :: string
  c_content :: "string option"
  c_key :: "string option"
  c_value :: "string option"

record template =
  t_id :: int
  t_name :: string
  t_components :: "component list"

text \<open>
  \<open>variables\<close> is a JavaScript object used as a dictionary.  Iteration with \<open>for ... in\<close>
  visits non-numeric keys in insertion order, so the object is an association list with
  pairwise distinct keys: a new key is appended, an existing key is overwritten in place.
  Besides the three fields of \<open>AppState\<close> the record holds the other mutable things the
  handlers read or write: the element being dragged (its \<open>data-index\<close>), the persisted
  record in \<open>localStorage\<close>, whether the save dialog is hidden, and the two derived views
  (the names and values shown in the variable form, the text of the live preview).
\<close>

record app_state =
  components :: "component list"
  templates :: "template list"
  variables :: "(string \<times> string) list"
  draggedElement :: "nat option"
  localStorage :: "template list option"
  modalHidden :: bool
  variableForm :: "(string \<times> string) list"
  livePreview :: string

datatype error = TypeError

definition initial_state :: app_state where
  "initial_state =
     \<lparr>components = [], templates = [], variables = [], draggedElement = None,
      localStorage = None, modalHidden = True, variableForm = [], livePreview = []\<rparr>"

section \<open>Variable engine\<close>

subsection \<open>Rendering of one component\<close>

text \<open>A template literal prints an absent field as the text \<open>undefined\<close>.\<close>

definition template_str :: "string option \<Rightarrow> string" where
  "template_str v = (case v of None \<Rightarrow> ''undefined'' | Some t \<Rightarrow> t)"

text \<open>The \<open>switch\<close> in \<open>updatePreviewAndVariables\<close>; a type with no case leaves the text empty.\<close>

definition componentText :: "component \<Rightarrow> string" where
  "componentText cmp =
     (if c_type cmp = ''heading'' then
        ''# '' @ template_str (c_content cmp) @ ''\<newline>\<newline>''
      else if c_type cmp = ''text-block'' then
        template_str (c_content cmp) @ ''\<newline>\<newline>''
      else if c_type cmp = ''key-value'' then
        template_str (c_key cmp) @ '': '' @ template_str (c_value cmp) @ ''\<newline>''
      else [])"

subsection \<open>The regular expression \<open>/\[([A-Z_]+)\]/g\<close>\<close>

definition is_name_char :: "char \<Rightarrow> bool" where
  "is_name_char c \<longleftrightarrow> (65 \<le> (of_char c :: nat) \<and> (of_char c :: nat) \<le> 90) \<or> c = CHR ''_''"

text \<open>
  \<open>match_name cs\<close> matches \<open>([A-Z_]+)\]\<close> at the start of \<open>cs\<close>, i.e. right after an opening
  bracket.  The greedy class takes the longest run of name characters; a shorter run is
  followed by a name character, never by the closing bracket, so backtracking cannot
  succeed where the longest run fails.  The result is the captured name and the text after
  the match.
\<close>

definition match_name :: "string \<Rightarrow> (string \<times> string) option" where
  "match_name cs =
     (let name = takeWhile is_name_char cs; rest = dropWhile is_name_char cs
      in if name \<noteq> [] \<and> rest \<noteq> [] \<and> hd rest = CHR '']'' then Some (name, tl rest) else None)"

text \<open>
  The loop \<open>while ((match = variableRegex.exec(componentText)) !== null)\<close>: the captures of
  all matches, leftmost first, each search resuming where the previous match ended.  The loop
  runs until \<open>exec\<close> returns \<open>null\<close>, which resets \<open>lastIndex\<close> to 0, so every component text is
  scanned from its start.
\<close>

function exec_all :: "string \<Rightarrow> string list" where
  "exec_all [] = []"
| "exec_all (c # cs) =
     (if c = CHR ''['' then
        (case match_name cs of
           Some (name, rest) \<Rightarrow> name # exec_all rest
         | None \<Rightarrow> exec_all cs)
      else exec_all cs)"
  by pat_completeness auto
termination
proof (relation "measure length")
  fix c :: char and cs x2 x y
  assume "match_name cs = Some x2" and "(x, y) = x2"
  then have "y = tl (dropWhile is_name_char cs)"
    by (auto simp: match_name_def Let_def split: if_splits)
  moreover have "length (tl (dropWhile is_name_char cs)) \<le> length cs"
    using length_dropWhile_le [of is_name_char cs] by simp
  ultimately show "(y, c # cs) \<in> measure length" by simp
qed auto

text \<open>\<open>detectedVariables.add\<close>: a JavaScript \<open>Set\<close> keeps insertion order and ignores repeats.\<close>

definition set_add :: "'a \<Rightarrow> 'a list \<Rightarrow> 'a list" where
  "set_add x xs = (if x \<in> set xs then xs else xs @ [x])"

text \<open>The body of \<open>state.components.forEach\<close>, on the pair of \<open>fullText\<close> and \<open>detectedVariables\<close>.\<close>

fun forEach_step :: "string \<times> string list \<Rightarrow> component \<Rightarrow> string \<times> string list" where
  "forEach_step (fullText, detectedVariables) cmp =
     (fullText @ componentText cmp,
      foldl (\<lambda>d name. set_add name d) detectedVariables (exec_all (componentText cmp)))"

subsection \<open>The variable form\<close>

text \<open>
  The body of \<open>variables.forEach\<close> in \<open>renderVariableInputs\<close>: a name with no own property gets
  the empty string, then an input showing \<open>state.variables[varName] || ''\<close> is appended.
\<close>

definition renderVariableInputs_step :: "app_state \<Rightarrow> string \<Rightarrow> app_state" where
  "renderVariableInputs_step s varName =
     (let s1 = (if map_of (variables s) varName = None
                then s\<lparr>variables := variables s @ [(varName, [])]\<rparr> else s)
      in s1\<lparr>variableForm := variableForm s1 @
               [(varName, case map_of (variables s1) varName of None \<Rightarrow> [] | Some v \<Rightarrow> v)]\<rparr>)"

definition renderVariableInputs :: "string list \<Rightarrow> app_state \<Rightarrow> app_state" where
  "renderVariableInputs vars s =
     (if vars = [] then s\<lparr>variableForm := []\<rparr>
      else foldl renderVariableInputs_step (s\<lparr>variableForm := []\<rparr>) vars)"

subsection \<open>Substitution\<close>

text \<open>The placeholder \<open>`[${key}]`\<close>.\<close>

definition token :: "string \<Rightarrow> string" where
  "token key = CHR ''['' # key @ '']''"

text \<open>
  \<open>String.prototype.replace\<close> with a replacement string expands the patterns of
  \<open>GetSubstitution\<close>: \<open>$$\<close> is a dollar sign, \<open>$&\<close> the matched text, \<open>$`\<close> the text before the
  match and \<open>$'\<close> the text after it.  The pattern here has no capture group, so \<open>$1\<close> and
  \<open>$<name>\<close> stay as they are, like every other character.
\<close>

fun get_substitution :: "string \<Rightarrow> string \<Rightarrow> string \<Rightarrow> string \<Rightarrow> string" where
  "get_substitution matched preceding following [] = []"
| "get_substitution matched preceding following [c] = [c]"
| "get_substitution matched preceding following (c # d # r) =
     (if c = CHR ''$'' \<and> d = CHR ''$'' then CHR ''$'' # get_substitution matched preceding following r
      else if c = CHR ''$'' \<and> d = CHR ''&'' then matched @ get_substitution matched preceding following r
      else if c = CHR ''$'' \<and> d = CHR 0x60 then preceding @ get_substitution matched preceding following r
      else if c = CHR ''$'' \<and> d = CHR 0x27 then following @ get_substitution matched preceding following r
      else c # get_substitution matched preceding following (d # r))"

text \<open>
  \<open>text.replace(new RegExp('\\[' + key + '\\]', 'g'), replacement)\<close>.  Every key of
  \<open>state.variables\<close> is a detected name (the only writers are \<open>renderVariableInputs\<close> and the
  inputs it renders), so the key holds no character that is special in a regular
  expression and the expression matches exactly the text \<open>token key\<close>.  \<open>preceding\<close> is the part
  of the original text already passed.
\<close>

function replace_all :: "string \<Rightarrow> string \<Rightarrow> string \<Rightarrow> string \<Rightarrow> string" where
  "replace_all key replacement preceding [] = []"
| "replace_all key replacement preceding (c # cs) =
     (if prefix (token key) (c # cs) then
        get_substitution (token key) preceding (drop (length (token key)) (c # cs)) replacement
          @ replace_all key replacement (preceding @ token key) (drop (length (token key)) (c # cs))
      else c # replace_all key replacement (preceding @ [c]) cs)"
  by pat_completeness auto
termination
  by (relation "measure (\<lambda>(key, replacement, preceding, s). length s)") (auto simp: token_def)

text \<open>The loop \<open>for (const key in state.variables)\<close>, with \<open>value || placeholder\<close>.\<close>

definition substitute :: "(string \<times> string) list \<Rightarrow> string \<Rightarrow> string" where
  "substitute vars fullText =
     foldl (\<lambda>previewText (key, v).
              replace_all key (if v = [] then token key else v) [] previewText) fullText vars"

subsection \<open>Trimming\<close>

text \<open>The white space and line terminators of \<open>String.prototype.trim\<close> among the 8-bit characters.\<close>

definition is_space :: "char \<Rightarrow> bool" where
  "is_space c \<longleftrightarrow> c \<in> {CHR 0x09, CHR 0x0A, CHR 0x0B, CHR 0x0C, CHR 0x0D, CHR 0x20, CHR 0xA0}"

definition trim :: "string \<Rightarrow> string" where
  "trim s = rev (dropWhile is_space (rev (dropWhile is_space s)))"

subsection \<open>\<open>updatePreviewAndVariables\<close> and \<open>render\<close>\<close>

definition updatePreviewAndVariables :: "app_state \<Rightarrow> app_state" where
  "updatePreviewAndVariables s =
     (let (fullText, detectedVariables) = foldl forEach_step ([], []) (components s);
          s1 = renderVariableInputs detectedVariables s
      in s1\<lparr>livePreview := trim (substitute (variables s1) fullText)\<rparr>)"

text \<open>
  \<open>render\<close> rebuilds the canvas and the template list from the state (no state is written
  there) and calls \<open>updatePreviewAndVariables\<close>.
\<close>

definition render :: "app_state \<Rightarrow> app_state" where
  "render s = updatePreviewAndVariables s"

section \<open>Component list and drag and drop\<close>

definition createNewComponent :: "string \<Rightarrow> int \<Rightarrow> component" where
  "createNewComponent type now =
     (let newComp = \<lparr>c_id = now, c_type = type, c_content = None, c_key = None, c_value = None\<rparr>
      in if type = ''heading'' then newComp\<lparr>c_content := Some ''New Heading''\<rparr>
         else if type = ''text-block'' then
           newComp\<lparr>c_content := Some ''This is a new text block. You can use variables like [TOPIC].''\<rparr>
         else if type = ''key-value'' then newComp\<lparr>c_key := Some ''Key'', c_value := Some ''[VALUE]''\<rparr>
         else newComp)"

text \<open>
  \<open>xs.splice(i, 1)\<close> for an index \<open>i \<ge> 0\<close>: the removed element, if there is one, and the rest.
  \<open>xs.splice(i, 0, x)\<close> inserts before position \<open>i\<close>, at the end when \<open>i\<close> exceeds the length.
\<close>

definition splice_remove :: "nat \<Rightarrow> 'a list \<Rightarrow> 'a option \<times> 'a list" where
  "splice_remove i xs =
     (if i < length xs then (Some (xs ! i), take i xs @ drop (Suc i) xs) else (None, xs))"

definition splice_insert :: "nat \<Rightarrow> 'a \<Rightarrow> 'a list \<Rightarrow> 'a list" where
  "splice_insert i x xs = take i xs @ x # drop i xs"

text \<open>The adjustment \<open>if (fromIndex < toIndex) toIndex--\<close> of the drop handler.\<close>

definition normalize_toIndex :: "nat \<Rightarrow> nat \<Rightarrow> nat" where
  "normalize_toIndex fromIndex toIndex = (if fromIndex < toIndex then toIndex - 1 else toIndex)"

text \<open>
  The \<open>drop\<close> handler of the canvas.  \<open>placeholder\<close> is the position of the placeholder among
  the children of the canvas (if there is a placeholder), \<open>componentType\<close> the text of the
  drag payload (empty when there is none) and \<open>now\<close> the reading of \<open>Date.now()\<close>.  When the
  dragged index is beyond the list, \<open>splice\<close> removes nothing, \<open>undefined\<close> is inserted and
  \<open>render\<close> fails reading a property of it.
\<close>

definition drop_handler :: "nat option \<Rightarrow> string \<Rightarrow> int \<Rightarrow> app_state \<Rightarrow> error + app_state" where
  "drop_handler placeholder componentType now s =
     (case draggedElement s of
        Some fromIndex \<Rightarrow>
          (let toIndex0 = (case placeholder of Some p \<Rightarrow> p | None \<Rightarrow> length (components s));
               toIndex = normalize_toIndex fromIndex toIndex0
           in if fromIndex \<noteq> toIndex then
                (case splice_remove fromIndex (components s) of
                   (Some movedComponent, rest) \<Rightarrow>
                     Inr (render (s\<lparr>components := splice_insert toIndex movedComponent rest,
                                    draggedElement := None\<rparr>))
                 | (None, rest) \<Rightarrow> Inl TypeError)
              else Inr (render (s\<lparr>draggedElement := None\<rparr>)))
      | None \<Rightarrow>
          if componentType \<noteq> [] then
            (let newComponent = createNewComponent componentType now;
                 newIndex = (case placeholder of Some p \<Rightarrow> p | None \<Rightarrow> length (components s))
             in Inr (render (s\<lparr>components := splice_insert newIndex newComponent (components s),
                               draggedElement := None\<rparr>)))
          else Inr (render (s\<lparr>draggedElement := None\<rparr>)))"

text \<open>\<open>dragstart\<close> on a canvas component with \<open>data-index\<close> \<open>i\<close>, and \<open>dragend\<close>.\<close>

definition dragstart :: "nat \<Rightarrow> app_state \<Rightarrow> app_state" where
  "dragstart i s = s\<lparr>draggedElement := Some i\<rparr>"

definition dragend :: "app_state \<Rightarrow> app_state" where
  "dragend s = s\<lparr>draggedElement := None\<rparr>"

text \<open>
  The \<open>input\<close> handler of the canvas.  \<open>find\<close> returns the first component with the id and the
  assignment \<open>component[property] = target.value\<close> writes that object.
\<close>

definition set_property :: "string \<Rightarrow> string \<Rightarrow> component \<Rightarrow> component" where
  "set_property property v c =
     (if property = ''content'' then c\<lparr>c_content := Some v\<rparr>
      else if property = ''key'' then c\<lparr>c_key := Some v\<rparr>
      else c\<lparr>c_value := Some v\<rparr>)"

fun update_first :: "('a \<Rightarrow> bool) \<Rightarrow> ('a \<Rightarrow> 'a) \<Rightarrow> 'a list \<Rightarrow> 'a list" where
  "update_first P f [] = []"
| "update_first P f (x # xs) = (if P x then f x # xs else x # update_first P f xs)"

definition input_handler :: "int \<Rightarrow> string \<Rightarrow> string \<Rightarrow> app_state \<Rightarrow> app_state" where
  "input_handler componentId property v s =
     (case find (\<lambda>c. c_id c = componentId) (components s) of
        Some component \<Rightarrow>
          if property = ''content'' \<or> property = ''key'' \<or> property = ''value'' then
            updatePreviewAndVariables
              (s\<lparr>components :=
                   update_first (\<lambda>c. c_id c = componentId) (set_property property v) (components s)\<rparr>)
          else s
      | None \<Rightarrow> s)"

text \<open>The \<open>click\<close> handler of the canvas, on a delete button.\<close>

definition delete_component :: "int \<Rightarrow> app_state \<Rightarrow> app_state" where
  "delete_component componentId s =
     render (s\<lparr>components := filter (\<lambda>c. c_id c \<noteq> componentId) (components s)\<rparr>)"

text \<open>The \<open>input\<close> handler of the variable form: \<open>state.variables[varName] = target.value\<close>.\<close>

fun assign :: "string \<Rightarrow> string \<Rightarrow> (string \<times> string) list \<Rightarrow> (string \<times> string) list" where
  "assign k v [] = [(k, v)]"
| "assign k v (p # ps) = (if fst p = k then (k, v) # ps else p # assign k v ps)"

definition variable_input :: "string \<Rightarrow> string \<Rightarrow> app_state \<Rightarrow> app_state" where
  "variable_input varName v s =
     (if varName \<noteq> [] then updatePreviewAndVariables (s\<lparr>variables := assign varName v (variables s)\<rparr>)
      else s)"

section \<open>Template store\<close>

text \<open>
  \<open>saveState\<close> writes the templates to \<open>localStorage\<close>; a failing write is caught and logged.
  \<open>writable\<close> says whether the write succeeds.
\<close>

definition saveState :: "bool \<Rightarrow> app_state \<Rightarrow> app_state" where
  "saveState writable s = (if writable then s\<lparr>localStorage := Some (templates s)\<rparr> else s)"

definition closeModal :: "app_state \<Rightarrow> app_state" where
  "closeModal s = s\<lparr>modalHidden := True\<rparr>"

text \<open>
  The handlers of the save button and of the save form.  The first component of the result
  is the message shown with \<open>alert\<close>, if any.  \<open>JSON.parse(JSON.stringify(...))\<close> yields a
  structurally equal value.
\<close>

definition saveTemplateButton_click :: "app_state \<Rightarrow> string option \<times> app_state" where
  "saveTemplateButton_click s =
     (if length (components s) = 0 then
        (Some ''Cannot save an empty prompt. Add some components first.'', s)
      else (None, s\<lparr>modalHidden := False\<rparr>))"

definition saveTemplateForm_submit ::
    "string \<Rightarrow> int \<Rightarrow> bool \<Rightarrow> app_state \<Rightarrow> string option \<times> app_state" where
  "saveTemplateForm_submit templateName now writable s =
     (let name = trim templateName
      in if name \<noteq> [] then
           (let newTemplate = \<lparr>t_id = now, t_name = name, t_components = components s\<rparr>
            in (None, closeModal (saveState writable (s\<lparr>templates := templates s @ [newTemplate]\<rparr>))))
         else (None, s))"

text \<open>The \<open>click\<close> handler of the template list, on a load button.\<close>

definition load_template :: "int \<Rightarrow> app_state \<Rightarrow> app_state" where
  "load_template templateId s =
     (case find (\<lambda>t. t_id t = templateId) (templates s) of
        Some t \<Rightarrow> render (s\<lparr>components := t_components t\<rparr>)
      | None \<Rightarrow> s)"

section \<open>Notions used in the statements\<close>

text \<open>
  The placeholder position that undoes a move: an element dragged from \<open>fromIndex\<close> now sits
  at \<open>pos\<close>; to bring it back the placeholder is put before the element that followed it
  originally, which is one further down when the element was moved up.
\<close>

definition inverse_toIndex :: "nat \<Rightarrow> nat \<Rightarrow> nat" where
  "inverse_toIndex fromIndex pos = (if pos < fromIndex then fromIndex + 1 else fromIndex)"

text \<open>A canvas with three components, the first of them being dragged.\<close>

definition three :: app_state where
  "three = initial_state\<lparr>components :=
     [\<lparr>c_id = 1, c_type = ''heading'', c_content = Some ''A'', c_key = None, c_value = None\<rparr>,
      \<lparr>c_id = 2, c_type = ''text-block'', c_content = Some ''B'', c_key = None, c_value = None\<rparr>,
      \<lparr>c_id = 3, c_type = ''key-value'', c_content = None, c_key = Some ''C'', c_value = Some ''c''\<rparr>],
     draggedElement := Some 0\<rparr>"

section \<open>Sequences of list operations\<close>

text \<open>
  The operations on the component list as the user performs them: dropping a palette item
  of one of the three kinds at a placeholder position (with the clock reading that becomes
  the id), clicking the delete button of a component, and typing into a field.
\<close>

datatype kind = Heading | TextBlock | KeyValue

fun kind_name :: "kind \<Rightarrow> string" where
  "kind_name Heading = ''heading''"
| "kind_name TextBlock = ''text-block''"
| "kind_name KeyValue = ''key-value''"

datatype list_op = InsertAt nat kind int | RemoveById int | UpdateField int string string

fun apply_op :: "list_op \<Rightarrow> app_state \<Rightarrow> error + app_state" where
  "apply_op (InsertAt index k now) s = drop_handler (Some index) (kind_name k) now s"
| "apply_op (RemoveById componentId) s = Inr (delete_component componentId s)"
| "apply_op (UpdateField componentId property v) s = Inr (input_handler componentId property v s)"

fun run :: "list_op list \<Rightarrow> app_state \<Rightarrow> error + app_state" where
  "run [] s = Inr s"
| "run (x # xs) s = (case apply_op x s of Inl e \<Rightarrow> Inl e | Inr s' \<Rightarrow> run xs s')"

fun insert_times :: "list_op list \<Rightarrow> int list" where
  "insert_times [] = []"
| "insert_times (InsertAt index k now # xs) = now # insert_times xs"
| "insert_times (x # xs) = insert_times xs"

fun inserts :: "list_op list \<Rightarrow> nat" where
  "inserts xs = length (insert_times xs)"

fun matched_removes :: "list_op list \<Rightarrow> app_state \<Rightarrow> nat" where
  "matched_removes [] s = 0"
| "matched_removes (x # xs) s =
     (case x of RemoveById componentId \<Rightarrow>
          if componentId \<in> c_id ` set (components s) then 1 else 0
      | _ \<Rightarrow> 0) +
     (case apply_op x s of Inl e \<Rightarrow> 0 | Inr s' \<Rightarrow> matched_removes xs s')"

definition ops_example :: "list_op list" where
  "ops_example = [InsertAt 0 Heading 5, InsertAt 0 KeyValue 6, RemoveById 7, RemoveById 5,
     UpdateField 6 ''key'' ''[X]'']"

section \<open>Notions of the variable engine\<close>

text \<open>Each distinct element once, in the order of first appearance.\<close>

primrec first_occurrences :: "'a list \<Rightarrow> 'a list" where
  "first_occurrences [] = []"
| "first_occurrences (x # xs) = x # removeAll x (first_occurrences xs)"

text \<open>A variable name: one or more upper-case ASCII letters or underscores.\<close>

definition is_name :: "string \<Rightarrow> bool" where
  "is_name n \<longleftrightarrow> n \<noteq> [] \<and> list_all is_name_char n"

text \<open>The concatenated rendered text of a component list.\<close>

definition rendered_text :: "component list \<Rightarrow> string" where
  "rendered_text comps = concat (map componentText comps)"

text \<open>
  The value an input of the variable form shows for a name, and the entries that
  \<open>renderVariableInputs\<close> adds for the names that have none.
\<close>

definition shown_value :: "(string \<times> string) list \<Rightarrow> string \<Rightarrow> string" where
  "shown_value vars n = (case map_of vars n of None \<Rightarrow> [] | Some v \<Rightarrow> v)"

definition defaults :: "(string \<times> string) list \<Rightarrow> string list \<Rightarrow> (string \<times> string) list" where
  "defaults vars ns = map (\<lambda>n. (n, [])) (filter (\<lambda>n. map_of vars n = None) ns)"

text \<open>A canvas with two components that mention variables, one of which has a value.\<close>

definition topic_example :: app_state where
  "topic_example = initial_state\<lparr>components :=
     [\<lparr>c_id = 1, c_type = ''heading'', c_content = Some ''Topic: [TOPIC]'', c_key = None,
        c_value = None\<rparr>,
      \<lparr>c_id = 2, c_type = ''key-value'', c_content = None, c_key = Some ''[value]'',
        c_value = Some ''[TOPIC] at [LEVEL_]''\<rparr>],
     variables := [(''TOPIC'', ''Rust'')]\<rparr>"

text \<open>The canvas with three components and one template already in the store.\<close>

definition three_saved :: app_state where
  "three_saved = three\<lparr>templates :=
     [\<lparr>t_id = 5, t_name = ''First'', t_components = components three\<rparr>]\<rparr>"

section \<open>Substitution as the specification words it\<close>

text \<open>
  Following the specification, not the code: every occurrence of the token of a name, from
  left to right, is replaced by the stored value itself, and a name with an empty stored
  value leaves the text as it is.
\<close>

function replace_literal :: "string \<Rightarrow> string \<Rightarrow> string \<Rightarrow> string" where
  "replace_literal key v [] = []"
| "replace_literal key v (c # cs) =
     (if prefix (token key) (c # cs) then
        v @ replace_literal key v (drop (length (token key)) (c # cs))
      else c # replace_literal key v cs)"
  by pat_completeness auto
termination
  by (relation "measure (\<lambda>(key, v, s). length s)") (auto simp: token_def)

definition substitute_spec :: "(string \<times> string) list \<Rightarrow> string \<Rightarrow> string" where
  "substitute_spec vars fullText =
     foldl (\<lambda>previewText (key, v).
              if v = [] then previewText else replace_literal key v previewText) fullText vars"

text \<open>A text block that mentions a variable whose stored value is a formula in dollar signs.\<close>

definition formula_example :: app_state where
  "formula_example = initial_state\<lparr>components :=
     [\<lparr>c_id = 1, c_type = ''text-block'', c_content = Some ''Explain [FORMULA]'', c_key = None,
        c_value = None\<rparr>],
     variables := [(''FORMULA'', ''$$x^2$$'')]\<rparr>"

section \<open>Objects and arrays in a store\<close>

text \<open>
  The definitions above treat a component list as a value.  JavaScript arrays and objects
  are references: \<open>splice\<close> and \<open>component[property] = ...\<close> write in place, \<open>filter\<close> makes a
  new array that holds the same objects, and \<open>JSON.parse(JSON.stringify(...))\<close> makes new
  objects and a new array.  To speak about sharing, the handlers that touch the component
  list or the templates are given a second time over a store: component objects and arrays
  of references live at addresses, and \<open>next_addr\<close> is the next address never used before.
  A template object is written once and never changed, so it is kept as a value whose
  \<open>components\<close> field is the address of an array.  The derived views and \<open>localStorage\<close> hold
  strings only and are left out.
\<close>

type_synonym addr = nat

record store =
  objects :: "addr \<Rightarrow> component"
  arrays :: "addr \<Rightarrow> addr list"
  next_addr :: addr

record template_obj =
  tr_id :: int
  tr_name :: string
  tr_components :: addr

record heap_state =
  store_of :: store
  components_ref :: addr
  templates_h :: "template_obj list"
  draggedElement_h :: "nat option"

text \<open>Creation of an object and of an array.\<close>

definition new_object :: "component \<Rightarrow> store \<Rightarrow> addr \<times> store" where
  "new_object c st =
     (next_addr st, st\<lparr>objects := (objects st)(next_addr st := c), next_addr := Suc (next_addr st)\<rparr>)"

definition new_array :: "addr list \<Rightarrow> store \<Rightarrow> addr \<times> store" where
  "new_array refs st =
     (next_addr st, st\<lparr>arrays := (arrays st)(next_addr st := refs), next_addr := Suc (next_addr st)\<rparr>)"

text \<open>
  \<open>JSON.parse(JSON.stringify(arr))\<close>: the array is read, and a new object is made for every
  element, then a new array of them.
\<close>

fun json_copy_objects :: "component list \<Rightarrow> store \<Rightarrow> addr list \<times> store" where
  "json_copy_objects [] st = ([], st)"
| "json_copy_objects (c # cs) st =
     (let (r, st1) = new_object c st; (rs, st2) = json_copy_objects cs st1 in (r # rs, st2))"

definition json_copy :: "addr \<Rightarrow> store \<Rightarrow> addr \<times> store" where
  "json_copy arr st =
     (let (refs, st1) = json_copy_objects (map (objects st) (arrays st arr)) st
      in new_array refs st1)"

text \<open>The component list \<open>state.components\<close> denotes, and the one a template denotes.\<close>

definition live :: "heap_state \<Rightarrow> component list" where
  "live hs = map (objects (store_of hs)) (arrays (store_of hs) (components_ref hs))"

definition stored :: "heap_state \<Rightarrow> template_obj \<Rightarrow> component list" where
  "stored hs t = map (objects (store_of hs)) (arrays (store_of hs) (tr_components t))"

text \<open>The initial state: \<open>components: []\<close> is an empty array at address 0.\<close>

definition initial_heap_state :: heap_state where
  "initial_heap_state =
     \<lparr>store_of = \<lparr>objects = (\<lambda>a. \<lparr>c_id = 0, c_type = [], c_content = None, c_key = None,
                                      c_value = None\<rparr>),
                   arrays = (\<lambda>a. []), next_addr = 1\<rparr>,
      components_ref = 0, templates_h = [], draggedElement_h = None\<rparr>"

text \<open>
  The handlers, as above, with the writes made at addresses: the drop handler splices the
  array \<open>state.components\<close> in place, the input handler writes the object that \<open>find\<close>
  returned, the delete handler stores a new filtered array, the submit handler pushes a
  template with a copy, and the load handler stores a copy of the template's array.
\<close>

definition drop_handler_h ::
    "nat option \<Rightarrow> string \<Rightarrow> int \<Rightarrow> heap_state \<Rightarrow> error + heap_state" where
  "drop_handler_h placeholder componentType now hs =
     (let st = store_of hs; a = components_ref hs; arr = arrays st a
      in case draggedElement_h hs of
           Some fromIndex \<Rightarrow>
             (let toIndex0 = (case placeholder of Some p \<Rightarrow> p | None \<Rightarrow> length arr);
                  toIndex = normalize_toIndex fromIndex toIndex0
              in if fromIndex \<noteq> toIndex then
                   (case splice_remove fromIndex arr of
                      (Some movedComponent, rest) \<Rightarrow>
                        Inr (hs\<lparr>store_of :=
                                  st\<lparr>arrays := (arrays st)(a := splice_insert toIndex movedComponent rest)\<rparr>,
                                draggedElement_h := None\<rparr>)
                    | (None, rest) \<Rightarrow> Inl TypeError)
                 else Inr (hs\<lparr>draggedElement_h := None\<rparr>))
         | None \<Rightarrow>
             if componentType \<noteq> [] then
               (let (newComponent, st1) = new_object (createNewComponent componentType now) st;
                    newIndex = (case placeholder of Some p \<Rightarrow> p | None \<Rightarrow> length arr)
                in Inr (hs\<lparr>store_of :=
                             st1\<lparr>arrays := (arrays st1)(a := splice_insert newIndex newComponent arr)\<rparr>,
                           draggedElement_h := None\<rparr>))
             else Inr (hs\<lparr>draggedElement_h := None\<rparr>))"

definition input_handler_h :: "int \<Rightarrow> string \<Rightarrow> string \<Rightarrow> heap_state \<Rightarrow> heap_state" where
  "input_handler_h componentId property v hs =
     (let st = store_of hs
      in case find (\<lambda>r. c_id (objects st r) = componentId) (arrays st (components_ref hs)) of
           Some component \<Rightarrow>
             if property = ''content'' \<or> property = ''key'' \<or> property = ''value'' then
               hs\<lparr>store_of :=
                    st\<lparr>objects := (objects st)
                          (component := set_property property v (objects st component))\<rparr>\<rparr>
             else hs
         | None \<Rightarrow> hs)"

definition delete_component_h :: "int \<Rightarrow> heap_state \<Rightarrow> heap_state" where
  "delete_component_h componentId hs =
     (let st = store_of hs;
          (a, st1) = new_array (filter (\<lambda>r. c_id (objects st r) \<noteq> componentId)
                                  (arrays st (components_ref hs))) st
      in hs\<lparr>store_of := st1, components_ref := a\<rparr>)"

definition saveTemplateForm_submit_h :: "string \<Rightarrow> int \<Rightarrow> heap_state \<Rightarrow> heap_state" where
  "saveTemplateForm_submit_h templateName now hs =
     (let name = trim templateName
      in if name \<noteq> [] then
           (let (a, st1) = json_copy (components_ref hs) (store_of hs)
            in hs\<lparr>store_of := st1,
                  templates_h := templates_h hs @ [\<lparr>tr_id = now, tr_name = name, tr_components = a\<rparr>]\<rparr>)
         else hs)"

definition load_template_h :: "int \<Rightarrow> heap_state \<Rightarrow> heap_state" where
  "load_template_h templateId hs =
     (case find (\<lambda>t. tr_id t = templateId) (templates_h hs) of
        Some t \<Rightarrow>
          (let (a, st1) = json_copy (tr_components t) (store_of hs)
           in hs\<lparr>store_of := st1, components_ref := a\<rparr>)
      | None \<Rightarrow> hs)"

text \<open>
  The gestures of the user on the canvas and the template list: dragging the component at an
  index to a placeholder position (\<open>dragstart\<close>, then \<open>drop\<close> with no payload), dropping a
  palette item, typing into a field, deleting a component, saving and loading a template.
\<close>

datatype gesture =
    Move nat nat | Insert nat string int | Edit int string string | Delete int
  | Save string int | Load int

fun gesture_h :: "gesture \<Rightarrow> heap_state \<Rightarrow> error + heap_state" where
  "gesture_h (Move fromIndex placeholder) hs =
     drop_handler_h (Some placeholder) [] 0 (hs\<lparr>draggedElement_h := Some fromIndex\<rparr>)"
| "gesture_h (Insert placeholder componentType now) hs =
     drop_handler_h (Some placeholder) componentType now hs"
| "gesture_h (Edit componentId property v) hs = Inr (input_handler_h componentId property v hs)"
| "gesture_h (Delete componentId) hs = Inr (delete_component_h componentId hs)"
| "gesture_h (Save templateName now) hs = Inr (saveTemplateForm_submit_h templateName now hs)"
| "gesture_h (Load templateId) hs = Inr (load_template_h templateId hs)"

fun run_h :: "gesture list \<Rightarrow> heap_state \<Rightarrow> error + heap_state" where
  "run_h [] hs = Inr hs"
| "run_h (g # gs) hs = (case gesture_h g hs of Inl e \<Rightarrow> Inl e | Inr hs' \<Rightarrow> run_h gs hs')"

text \<open>
  The invariant: every address in use is below \<open>next_addr\<close>, and the array and the objects
  of a template are neither the live array nor objects of the live array.
\<close>

definition separated :: "heap_state \<Rightarrow> bool" where
  "separated hs \<longleftrightarrow>
     (let st = store_of hs; n = next_addr st; a = components_ref hs
      in a < n \<and> list_all (\<lambda>r. r < n) (arrays st a)
         \<and> list_all (\<lambda>t. tr_components t < n \<and> tr_components t \<noteq> a
               \<and> list_all (\<lambda>r. r < n \<and> r \<notin> set (arrays st a)) (arrays st (tr_components t)))
             (templates_h hs))"

text \<open>
  What one gesture may do to the store: change the live array and its objects, use new
  addresses, and add templates made of new addresses only.
\<close>

definition frame :: "heap_state \<Rightarrow> heap_state \<Rightarrow> bool" where
  "frame hs hs' \<longleftrightarrow>
     (let st = store_of hs; st' = store_of hs'; n = next_addr st;
          a = components_ref hs; a' = components_ref hs'
      in n \<le> next_addr st'
         \<and> (\<forall>x. x < n \<and> x \<noteq> a \<longrightarrow> arrays st' x = arrays st x)
         \<and> (\<forall>r. r < n \<and> r \<notin> set (arrays st a) \<longrightarrow> objects st' r = objects st r)
         \<and> a' < next_addr st' \<and> (a' = a \<or> n \<le> a')
         \<and> (\<forall>r\<in>set (arrays st' a'). r < next_addr st' \<and> (r \<in> set (arrays st a) \<or> n \<le> r))
         \<and> (\<exists>ts. templates_h hs' = templates_h hs @ ts
               \<and> (\<forall>t\<in>set ts. n \<le> tr_components t \<and> tr_components t < next_addr st'
                     \<and> tr_components t \<noteq> a'
                     \<and> (\<forall>r\<in>set (arrays st' (tr_components t)).
                           n \<le> r \<and> r < next_addr st' \<and> r \<notin> set (arrays st' a')))))"

text \<open>Two components and a saved template, then edits, a move, a load and a delete.\<close>

definition gestures_example :: "gesture list" where
  "gestures_example = [Insert 0 ''heading'' 5, Insert 1 ''key-value'' 6, Save ''T'' 7]"

definition edits_example :: "gesture list" where
  "edits_example = [Edit 5 ''content'' ''X'', Move 0 2, Load 7, Edit 6 ''key'' ''K'', Delete 5,
     Insert 0 ''text-block'' 8]"

section \<open>The gestures on component lists as values\<close>

text \<open>
  The same gestures with the handlers of the first part, to compare the two descriptions of
  the program: a state with a store denotes a state with values when the live array and
  the arrays of the templates, read through the store, are the lists of that state, and no
  object occurs twice in the live array.
\<close>

fun gesture_value :: "gesture \<Rightarrow> app_state \<Rightarrow> error + app_state" where
  "gesture_value (Move fromIndex placeholder) s =
     drop_handler (Some placeholder) [] 0 (dragstart fromIndex s)"
| "gesture_value (Insert placeholder componentType now) s =
     drop_handler (Some placeholder) componentType now s"
| "gesture_value (Edit componentId property v) s = Inr (input_handler componentId property v s)"
| "gesture_value (Delete componentId) s = Inr (delete_component componentId s)"
| "gesture_value (Save templateName now) s =
     Inr (snd (saveTemplateForm_submit templateName now True s))"
| "gesture_value (Load templateId) s = Inr (load_template templateId s)"

definition template_value :: "heap_state \<Rightarrow> template_obj \<Rightarrow> template" where
  "template_value hs t = \<lparr>t_id = tr_id t, t_name = tr_name t, t_components = stored hs t\<rparr>"

definition denotes :: "heap_state \<Rightarrow> app_state \<Rightarrow> bool" where
  "denotes hs s \<longleftrightarrow>
     live hs = components s \<and> map (template_value hs) (templates_h hs) = templates s
     \<and> draggedElement_h hs = draggedElement s
     \<and> distinct (arrays (store_of hs) (components_ref hs))"

fun run_value :: "gesture list \<Rightarrow> app_state \<Rightarrow> error + app_state" where
  "run_value [] s = Inr s"
| "run_value (g # gs) s = (case gesture_value g s of Inl e \<Rightarrow> Inl e | Inr s' \<Rightarrow> run_value gs s')"

section \<open>Basic facts\<close>

lemma components_renderVariableInputs_step [simp]:
  "components (renderVariableInputs_step s n) = components s"
  by (simp add: renderVariableInputs_step_def Let_def)

lemma components_foldl_step [simp]:
  "components (foldl renderVariableInputs_step s ns) = components s"
  by (induction ns arbitrary: s) simp_all

lemma components_updatePreviewAndVariables [simp]:
  "components (updatePreviewAndVariables s) = components s"
  by (simp add: updatePreviewAndVariables_def renderVariableInputs_def Let_def split: prod.split)

lemma components_render [simp]: "components (render s) = components s"
  by (simp add: render_def)

section \<open>Reordering by drag and drop\<close>

lemma splice_remove_insert:
  "k \<le> length ys \<Longrightarrow> splice_remove k (splice_insert k x ys) = (Some x, ys)"
  by (simp add: splice_remove_def splice_insert_def nth_append min_def)

lemma splice_insert_remove:
  "i < length xs \<Longrightarrow> splice_insert i (xs ! i) (take i xs @ drop (Suc i) xs) = xs"
  by (simp add: splice_insert_def min_def id_take_nth_drop [symmetric])

lemma splice_insert_nth:
  "k \<le> length ys \<Longrightarrow> splice_insert k x ys ! k = x"
  by (simp add: splice_insert_def nth_append min_def)

lemma length_splice_insert: "length (splice_insert k x ys) = Suc (length ys)"
  by (simp add: splice_insert_def)

lemma length_remove_nth: "i < length xs \<Longrightarrow> Suc (length (take i xs @ drop (Suc i) xs)) = length xs"
  by simp

lemma normalize_inverse:
  "normalize_toIndex (normalize_toIndex i j) (inverse_toIndex i (normalize_toIndex i j)) = i"
  by (simp add: normalize_toIndex_def inverse_toIndex_def)

lemma drop_reorder:
  assumes "draggedElement s = Some i" "i < length (components s)"
  shows "drop_handler (Some j) ct now s =
      Inr (render (s\<lparr>components := splice_insert (normalize_toIndex i j) (components s ! i)
                                     (take i (components s) @ drop (Suc i) (components s)),
                     draggedElement := None\<rparr>))"
proof (cases "normalize_toIndex i j = i")
  case True
  then show ?thesis
    using assms by (simp add: drop_handler_def normalize_toIndex_def [symmetric] splice_insert_remove)
next
  case False
  then show ?thesis
    using assms
    by (simp add: drop_handler_def normalize_toIndex_def [symmetric] splice_remove_def)
qed

text \<open>
  Claim C1.  Let \<open>i\<close> be a valid position of the component list and \<open>j\<close> a valid placeholder
  position (\<open>j\<close> at most the length).  Dropping the element dragged from \<open>i\<close> at \<open>j\<close> succeeds
  and puts it at the normalized position \<open>normalize_toIndex i j\<close>; dragging it from there and
  dropping it at the placeholder position \<open>inverse_toIndex\<close> restores the original list.  A
  drop whose normalized target equals \<open>i\<close> leaves the list unchanged.
\<close>

theorem drop_reorder_round_trip:
  assumes "draggedElement s = Some i" and "i < length (components s)"
    and "j \<le> length (components s)"
  shows "\<exists>s1 s2. drop_handler (Some j) ct now s = Inr s1
     \<and> components s1 ! normalize_toIndex i j = components s ! i
     \<and> drop_handler (Some (inverse_toIndex i (normalize_toIndex i j))) ct' now'
          (dragstart (normalize_toIndex i j) s1) = Inr s2
     \<and> components s2 = components s
     \<and> (normalize_toIndex i j = i \<longrightarrow> components s1 = components s)"
proof -
  let ?xs = "components s" and ?k = "normalize_toIndex i j"
  let ?ys = "take i ?xs @ drop (Suc i) ?xs"
  let ?s1 = "render (s\<lparr>components := splice_insert ?k (?xs ! i) ?ys, draggedElement := None\<rparr>)"
  let ?d = "dragstart ?k ?s1"
  let ?s2 = "render (?d\<lparr>components := splice_insert i (?xs ! i) ?ys, draggedElement := None\<rparr>)"
  have k: "?k \<le> length ?ys" and kl: "?k < length ?xs"
    using assms by (auto simp: normalize_toIndex_def)
  have s1: "drop_handler (Some j) ct now s = Inr ?s1"
    using assms by (simp only: drop_reorder)
  have c1: "components ?s1 = splice_insert ?k (?xs ! i) ?ys"
    by simp
  have at: "components ?s1 ! ?k = ?xs ! i"
    using k by (simp only: c1 splice_insert_nth)
  have d: "draggedElement ?d = Some ?k" "components ?d = splice_insert ?k (?xs ! i) ?ys"
    by (simp_all add: dragstart_def)
  have klt: "?k < length (components ?d)"
    using kl assms(2) by (simp only: d(2) length_splice_insert length_remove_nth)
  have rm: "take ?k (components ?d) @ drop (Suc ?k) (components ?d) = ?ys"
    using splice_remove_insert [OF k, of "?xs ! i"] klt
    by (simp add: d(2) splice_remove_def)
  have nth: "components ?d ! ?k = ?xs ! i"
    using k by (simp only: d(2) splice_insert_nth)
  have s2: "drop_handler (Some (inverse_toIndex i ?k)) ct' now' ?d = Inr ?s2"
    by (simp only: drop_reorder [OF d(1) klt] normalize_inverse rm nth)
  have c2: "components ?s2 = ?xs"
    using assms(2) by (simp add: splice_insert_remove)
  have noop: "?k = i \<longrightarrow> components ?s1 = ?xs"
    using assms(2) by (simp add: splice_insert_remove)
  from s1 at s2 c2 noop show ?thesis by blast
qed

theorem drop_reorder_round_trip_witness:
  "(\<exists>s1 s2. drop_handler (Some 2) [] 0 three = Inr s1
     \<and> components s1 ! 1 = components three ! 0
     \<and> drop_handler (Some 0) [] 0 (dragstart 1 s1) = Inr s2
     \<and> components s2 = components three)
   \<and> (\<exists>s1. drop_handler (Some 1) [] 0 three = Inr s1 \<and> components s1 = components three)"
  using drop_reorder_round_trip [of three 0 2 "[]" 0 "[]" 0]
    drop_reorder_round_trip [of three 0 1 "[]" 0 "[]" 0]
  by (simp add: three_def initial_state_def normalize_toIndex_def inverse_toIndex_def) blast

section \<open>Drops that are neither a move nor an insert\<close>

text \<open>
  Claim C2, as stated: a drop with no dragged element and a payload that is not one of the
  three kinds leaves the list unchanged.  The handler tests only that the payload is not
  empty: the payload \<open>quote\<close> inserts a component of type \<open>quote\<close> with no content field.
\<close>

theorem drop_unrecognized_kind_inserts:
  "map_sum id components (drop_handler None ''quote'' 5 initial_state) =
     Inr [\<lparr>c_id = 5, c_type = ''quote'', c_content = None, c_key = None, c_value = None\<rparr>]"
  by (simp add: drop_handler_def initial_state_def createNewComponent_def splice_insert_def)

text \<open>
  Claim C2, amended: a drop with no dragged element and an empty (or absent) payload
  succeeds and leaves the component list unchanged.
\<close>

theorem drop_empty_payload_noop:
  assumes "draggedElement s = None"
  shows "\<exists>s'. drop_handler placeholder [] now s = Inr s' \<and> components s' = components s"
  using assms by (simp add: drop_handler_def)

theorem drop_empty_payload_noop_witness:
  "\<exists>s'. drop_handler (Some 0) [] 5 initial_state = Inr s' \<and> components s' = components initial_state"
  using drop_empty_payload_noop [of initial_state "Some 0" 5] by (simp add: initial_state_def)

section \<open>Editing a field\<close>

lemma update_first_nth:
  "i < length xs \<Longrightarrow> P (xs ! i) \<Longrightarrow> (\<forall>k<i. \<not> P (xs ! k)) \<Longrightarrow>
   update_first P f xs = xs[i := f (xs ! i)]"
proof (induction xs arbitrary: i)
  case Nil
  then show ?case by simp
next
  case (Cons x xs)
  show ?case
  proof (cases i)
    case 0
    with Cons.prems show ?thesis by simp
  next
    case (Suc j)
    from Cons.prems Suc have "\<not> P x" by auto
    moreover from Cons.prems Suc have "update_first P f xs = xs[j := f (xs ! j)]"
      by (intro Cons.IH) auto
    ultimately show ?thesis using Suc by simp
  qed
qed

lemma find_Some_ex: "(\<exists>x\<in>set xs. P x) \<Longrightarrow> \<exists>y. find P xs = Some y"
  by (cases "find P xs") (auto simp: find_None_iff)

text \<open>
  Claim C9, as stated: a field is set only when it is a content field of the component's
  kind, and otherwise the list is unchanged.  The handler accepts each of the three
  property names for every component: on the heading with id 1 the property \<open>key\<close> is set.
\<close>

theorem input_handler_counterexample:
  "components (input_handler 1 ''key'' ''x'' three) =
     [\<lparr>c_id = 1, c_type = ''heading'', c_content = Some ''A'', c_key = Some ''x'', c_value = None\<rparr>,
      \<lparr>c_id = 2, c_type = ''text-block'', c_content = Some ''B'', c_key = None, c_value = None\<rparr>,
      \<lparr>c_id = 3, c_type = ''key-value'', c_content = None, c_key = Some ''C'', c_value = Some ''c''\<rparr>]"
  by (simp add: input_handler_def three_def initial_state_def set_property_def)

text \<open>
  Claim C9, amended: the handler changes nothing when the property is none of \<open>content\<close>,
  \<open>key\<close>, \<open>value\<close> or when no component has the id; otherwise it sets that property, whatever
  the kind, on the first component with the id and leaves every other component as it is.
\<close>

theorem input_handler_sets_field:
  "(property \<notin> {''content'', ''key'', ''value''} \<longrightarrow> input_handler cid property v s = s)
   \<and> ((\<forall>c \<in> set (components s). c_id c \<noteq> cid) \<longrightarrow> input_handler cid property v s = s)
   \<and> (property \<in> {''content'', ''key'', ''value''} \<and> i < length (components s)
        \<and> c_id (components s ! i) = cid \<and> (\<forall>k<i. c_id (components s ! k) \<noteq> cid) \<longrightarrow>
      components (input_handler cid property v s) =
        (components s)[i := set_property property v (components s ! i)])
   \<and> set_property ''content'' v c = c\<lparr>c_content := Some v\<rparr>
   \<and> set_property ''key'' v c = c\<lparr>c_key := Some v\<rparr>
   \<and> set_property ''value'' v c = c\<lparr>c_value := Some v\<rparr>"
proof (intro conjI impI)
  assume "property \<notin> {''content'', ''key'', ''value''}"
  then show "input_handler cid property v s = s"
    by (simp add: input_handler_def split: option.split)
next
  assume "\<forall>c \<in> set (components s). c_id c \<noteq> cid"
  then have "find (\<lambda>c. c_id c = cid) (components s) = None"
    by (simp add: find_None_iff)
  then show "input_handler cid property v s = s"
    by (simp add: input_handler_def)
next
  assume a: "property \<in> {''content'', ''key'', ''value''} \<and> i < length (components s)
        \<and> c_id (components s ! i) = cid \<and> (\<forall>k<i. c_id (components s ! k) \<noteq> cid)"
  then have "components s ! i \<in> set (components s)" "c_id (components s ! i) = cid"
    by simp_all
  then have "find (\<lambda>c. c_id c = cid) (components s) \<noteq> None"
    unfolding find_None_iff by blast
  then obtain y where y: "find (\<lambda>c. c_id c = cid) (components s) = Some y"
    by (cases "find (\<lambda>c. c_id c = cid) (components s)") simp_all
  have p: "property = ''content'' \<or> property = ''key'' \<or> property = ''value''"
    using a by simp
  have "update_first (\<lambda>c. c_id c = cid) (set_property property v) (components s) =
      (components s)[i := set_property property v (components s ! i)]"
    using a by (intro update_first_nth) simp_all
  then show "components (input_handler cid property v s) =
        (components s)[i := set_property property v (components s ! i)]"
    using p by (simp add: input_handler_def y)
qed (simp_all add: set_property_def)

theorem input_handler_sets_field_witness:
  "input_handler 1 ''id'' ''x'' three = three
   \<and> input_handler 9 ''content'' ''x'' three = three
   \<and> components (input_handler 2 ''content'' ''x'' three) =
        (components three)[1 := (components three ! 1)\<lparr>c_content := Some ''x''\<rparr>]"
  using input_handler_sets_field [of "''id''" 1 "''x''" three]
    input_handler_sets_field [of "''content''" 9 "''x''" three]
    input_handler_sets_field [of "''content''" 2 "''x''" three 1 "components three ! 1"]
  by (simp add: three_def initial_state_def)

section \<open>Ids and length along a sequence of operations\<close>

lemma draggedElement_foldl_step [simp]:
  "draggedElement (foldl renderVariableInputs_step s ns) = draggedElement s"
  by (induction ns arbitrary: s) (simp_all add: renderVariableInputs_step_def Let_def)

lemma draggedElement_updatePreviewAndVariables [simp]:
  "draggedElement (updatePreviewAndVariables s) = draggedElement s"
  by (simp add: updatePreviewAndVariables_def renderVariableInputs_def Let_def split: prod.split)

lemma draggedElement_render [simp]: "draggedElement (render s) = draggedElement s"
  by (simp add: render_def)

lemma map_splice_insert: "map f (splice_insert i x xs) = splice_insert i (f x) (map f xs)"
  by (simp add: splice_insert_def take_map drop_map)

lemma set_splice_insert: "set (splice_insert i x xs) = insert x (set xs)"
proof -
  have "set (take i xs) \<union> set (drop i xs) = set xs"
    by (metis append_take_drop_id set_append)
  then show ?thesis by (auto simp: splice_insert_def)
qed

lemma distinct_splice_insert: "distinct xs \<Longrightarrow> x \<notin> set xs \<Longrightarrow> distinct (splice_insert i x xs)"
proof -
  assume a: "distinct xs" "x \<notin> set xs"
  have "set (take i xs) \<inter> set (drop i xs) = {}"
    using a(1) by (simp add: set_take_disj_set_drop_if_distinct)
  moreover have "x \<notin> set (take i xs)" "x \<notin> set (drop i xs)"
    using a(2) by (auto dest: in_set_takeD in_set_dropD)
  ultimately show ?thesis using a(1) by (simp add: splice_insert_def)
qed

lemma c_id_createNewComponent [simp]: "c_id (createNewComponent type now) = now"
  by (simp add: createNewComponent_def Let_def)

lemma c_id_set_property [simp]: "c_id (set_property p v c) = c_id c"
  by (simp add: set_property_def)

lemma map_c_id_update_first:
  "map c_id (update_first P (set_property p v) xs) = map c_id xs"
  by (induction xs) simp_all

lemma map_c_id_input_handler [simp]:
  "map c_id (components (input_handler i p v s)) = map c_id (components s)"
  by (simp add: input_handler_def map_c_id_update_first split: option.split)

lemma draggedElement_input_handler [simp]:
  "draggedElement (input_handler i p v s) = draggedElement s"
  by (simp add: input_handler_def split: option.split)

lemma length_filter_remove_one:
  "distinct (map f xs) \<Longrightarrow> a \<in> f ` set xs \<Longrightarrow> Suc (length (filter (\<lambda>x. f x \<noteq> a) xs)) = length xs"
proof (induction xs)
  case Nil
  then show ?case by simp
next
  case (Cons x xs)
  show ?case
  proof (cases "f x = a")
    case True
    have "f x \<notin> f ` set xs" using Cons.prems by simp
    with True have "\<forall>y\<in>set xs. f y \<noteq> a" by blast
    then have "filter (\<lambda>x. f x \<noteq> a) xs = xs" by (simp add: filter_id_conv)
    with True show ?thesis by simp
  next
    case False
    with Cons show ?thesis by auto
  qed
qed

lemma length_filter_remove_none:
  "a \<notin> f ` set xs \<Longrightarrow> filter (\<lambda>x. f x \<noteq> a) xs = xs"
  by (auto simp: filter_id_conv)


lemma kind_name_not_empty [simp]: "kind_name k \<noteq> []"
  by (cases k) simp_all

lemma apply_op_invariant:
  assumes "draggedElement s = None" and "distinct (map c_id (components s))"
    and "set (map c_id (components s)) \<inter> set (insert_times [x]) = {}"
  shows "\<exists>s'. apply_op x s = Inr s' \<and> draggedElement s' = None
     \<and> distinct (map c_id (components s'))
     \<and> set (map c_id (components s')) \<subseteq> set (map c_id (components s)) \<union> set (insert_times [x])
     \<and> length (components s') + matched_removes [x] s = length (components s) + inserts [x]"
proof (cases x)
  case (InsertAt index k now)
  let ?c = "createNewComponent (kind_name k) now"
  let ?s' = "render (s\<lparr>components := splice_insert index ?c (components s),
                       draggedElement := None\<rparr>)"
  have r: "apply_op x s = Inr ?s'"
    using assms(1) InsertAt by (simp add: drop_handler_def)
  have ids: "map c_id (components ?s') = splice_insert index now (map c_id (components s))"
    by (simp add: map_splice_insert)
  have new: "now \<notin> set (map c_id (components s))"
    using assms(3) InsertAt by simp
  have d: "distinct (map c_id (components ?s'))"
    unfolding ids using assms(2) new by (rule distinct_splice_insert)
  have sub: "set (map c_id (components ?s')) \<subseteq> set (map c_id (components s)) \<union> set (insert_times [x])"
    using InsertAt by (simp only: ids set_splice_insert) auto
  have len: "length (components ?s') + matched_removes [x] s = length (components s) + inserts [x]"
    using InsertAt r by (simp add: length_splice_insert)
  have dr: "draggedElement ?s' = None" by simp
  from r dr d sub len show ?thesis by blast
next
  case (RemoveById componentId)
  let ?s' = "delete_component componentId s"
  have r: "apply_op x s = Inr ?s'" using RemoveById by simp
  have c: "components ?s' = filter (\<lambda>c. c_id c \<noteq> componentId) (components s)"
    by (simp add: delete_component_def)
  have dr: "draggedElement ?s' = None" using assms(1) by (simp add: delete_component_def)
  have d: "distinct (map c_id (components ?s'))"
    using assms(2) by (simp add: c distinct_map_filter)
  have sub: "set (map c_id (components ?s')) \<subseteq> set (map c_id (components s)) \<union> set (insert_times [x])"
    by (auto simp: c)
  have len: "length (components ?s') + matched_removes [x] s = length (components s) + inserts [x]"
  proof (cases "componentId \<in> c_id ` set (components s)")
    case True
    then show ?thesis
      using RemoveById length_filter_remove_one [OF assms(2) True] by (simp add: c)
  next
    case False
    then show ?thesis
      using RemoveById length_filter_remove_none [OF False] by (simp add: c)
  qed
  from r dr d sub len show ?thesis by blast
next
  case (UpdateField componentId property v)
  let ?s' = "input_handler componentId property v s"
  have r: "apply_op x s = Inr ?s'" using UpdateField by simp
  have ids: "map c_id (components ?s') = map c_id (components s)" by simp
  have dr: "draggedElement ?s' = None" using assms(1) by simp
  have d: "distinct (map c_id (components ?s'))" using assms(2) by (simp only: ids)
  have sub: "set (map c_id (components ?s')) \<subseteq> set (map c_id (components s)) \<union> set (insert_times [x])"
    by (simp only: ids) simp
  have "length (components ?s') = length (components s)"
    using arg_cong [OF ids, of length] by (simp only: length_map)
  then have len: "length (components ?s') + matched_removes [x] s = length (components s) + inserts [x]"
    using UpdateField by simp
  from r dr d sub len show ?thesis by blast
qed

lemma insert_times_Cons: "insert_times (x # xs) = insert_times [x] @ insert_times xs"
  by (cases x) simp_all

lemma insert_times_append: "insert_times (xs @ ys) = insert_times xs @ insert_times ys"
proof (induction xs)
  case Nil
  show ?case by simp
next
  case (Cons x xs)
  then show ?case
    using insert_times_Cons [of x "xs @ ys"] insert_times_Cons [of x xs] by simp
qed

lemma matched_removes_Cons:
  "apply_op x s = Inr s' \<Longrightarrow> matched_removes (x # xs) s = matched_removes [x] s + matched_removes xs s'"
  by simp

lemma run_invariant:
  assumes "draggedElement s = None" and "distinct (map c_id (components s))"
    and "distinct (insert_times ops)"
    and "set (map c_id (components s)) \<inter> set (insert_times ops) = {}"
  shows "\<exists>s'. run ops s = Inr s' \<and> draggedElement s' = None
     \<and> distinct (map c_id (components s'))
     \<and> length (components s') + matched_removes ops s = length (components s) + inserts ops"
  using assms
proof (induction ops arbitrary: s)
  case Nil
  then show ?case by simp
next
  case (Cons x xs)
  have t: "insert_times (x # xs) = insert_times [x] @ insert_times xs"
    by (rule insert_times_Cons)
  have dis: "distinct (insert_times xs)" "set (insert_times [x]) \<inter> set (insert_times xs) = {}"
    using Cons.prems(3) unfolding t by simp_all
  have fresh: "set (map c_id (components s)) \<inter> set (insert_times [x]) = {}"
    "set (map c_id (components s)) \<inter> set (insert_times xs) = {}"
    using Cons.prems(4) unfolding t by auto
  from apply_op_invariant [OF Cons.prems(1,2) fresh(1)]
  obtain s1 where s1: "apply_op x s = Inr s1" "draggedElement s1 = None"
    "distinct (map c_id (components s1))"
    "set (map c_id (components s1)) \<subseteq> set (map c_id (components s)) \<union> set (insert_times [x])"
    "length (components s1) + matched_removes [x] s = length (components s) + inserts [x]"
    by blast
  have "set (map c_id (components s1)) \<inter> set (insert_times xs) = {}"
    using s1(4) dis(2) fresh(2) by blast
  from Cons.IH [OF s1(2,3) dis(1) this]
  obtain s' where s': "run xs s1 = Inr s'" "draggedElement s' = None"
    "distinct (map c_id (components s'))"
    "length (components s') + matched_removes xs s1 = length (components s1) + inserts xs"
    by blast
  have r: "run (x # xs) s = Inr s'" using s1(1) s'(1) by simp
  have "inserts (x # xs) = inserts [x] + inserts xs"
    using t by simp
  then have "length (components s') + matched_removes (x # xs) s
      = length (components s) + inserts (x # xs)"
    using s1(5) s'(4) matched_removes_Cons [OF s1(1), of xs] by simp
  with r s'(2,3) show ?case by blast
qed

text \<open>
  Claim C7, as stated: ids stay pairwise distinct along every sequence of operations.  The
  id of a new component is the clock reading, and two inserts at the same reading give two
  components with the same id.
\<close>

theorem duplicate_clock_reading_counterexample:
  "map_sum id (\<lambda>s. map c_id (components s))
     (run [InsertAt 0 Heading 5, InsertAt 0 Heading 5] initial_state) = Inr [5, 5]"
  by (simp add: drop_handler_def initial_state_def splice_insert_def)

text \<open>
  Claim C7, amended: for every sequence of insert, remove and field update operations
  starting from the empty list in which the clock readings of the inserts are pairwise
  distinct, after every prefix of the sequence the ids in the list are pairwise distinct
  and the length of the list is the number of inserts minus the number of removes that
  matched an element.
\<close>

theorem ids_distinct_and_length:
  assumes "distinct (insert_times ops)" and "k \<le> length ops"
  shows "\<exists>s'. run (take k ops) initial_state = Inr s'
     \<and> distinct (map c_id (components s'))
     \<and> matched_removes (take k ops) initial_state \<le> inserts (take k ops)
     \<and> length (components s') =
         inserts (take k ops) - matched_removes (take k ops) initial_state"
proof -
  have "insert_times ops = insert_times (take k ops) @ insert_times (drop k ops)"
    using insert_times_append [of "take k ops" "drop k ops"] by simp
  with assms(1) have d: "distinct (insert_times (take k ops))" by simp
  have i: "draggedElement initial_state = None" "distinct (map c_id (components initial_state))"
    "set (map c_id (components initial_state)) \<inter> set (insert_times (take k ops)) = {}"
    by (simp_all add: initial_state_def)
  from run_invariant [OF i(1,2) d i(3)]
  obtain s' where "run (take k ops) initial_state = Inr s'"
    "distinct (map c_id (components s'))"
    "length (components s') + matched_removes (take k ops) initial_state
       = length (components initial_state) + inserts (take k ops)"
    by blast
  moreover have "length (components initial_state) = 0" by (simp add: initial_state_def)
  ultimately show ?thesis by (intro exI [of _ s']) simp
qed

theorem ids_distinct_and_length_witness:
  "distinct (insert_times ops_example) \<and> 5 \<le> length ops_example
   \<and> (\<exists>s'. run (take 5 ops_example) initial_state = Inr s'
     \<and> distinct (map c_id (components s'))
     \<and> matched_removes (take 5 ops_example) initial_state \<le> inserts (take 5 ops_example)
     \<and> length (components s') =
         inserts (take 5 ops_example) - matched_removes (take 5 ops_example) initial_state)"
  using ids_distinct_and_length [of ops_example 5] by (simp add: ops_example_def)

section \<open>Detection of variables\<close>

lemma set_first_occurrences [simp]: "set (first_occurrences xs) = set xs"
  by (induction xs) auto

lemma distinct_first_occurrences [simp]: "distinct (first_occurrences xs)"
  by (induction xs) (simp_all add: distinct_removeAll)

lemma foldl_set_add:
  "foldl (\<lambda>d n. set_add n d) acc xs = acc @ filter (\<lambda>x. x \<notin> set acc) (first_occurrences xs)"
proof (induction xs arbitrary: acc)
  case Nil
  show ?case by simp
next
  case (Cons x xs)
  have step: "foldl (\<lambda>d n. set_add n d) acc (x # xs) = foldl (\<lambda>d n. set_add n d) (set_add x acc) xs"
    by simp
  show ?case
  proof (cases "x \<in> set acc")
    case True
    have "filter (\<lambda>y. y \<notin> set acc) (removeAll x (first_occurrences xs)) =
        filter (\<lambda>y. y \<notin> set acc) (first_occurrences xs)"
      using True by (auto simp: removeAll_filter_not_eq intro: filter_cong)
    moreover have "set_add x acc = acc" using True by (simp add: set_add_def)
    ultimately show ?thesis unfolding step Cons.IH using True by simp
  next
    case False
    have "filter (\<lambda>y. y \<notin> set (acc @ [x])) (first_occurrences xs) =
        filter (\<lambda>y. y \<notin> set acc) (removeAll x (first_occurrences xs))"
      by (auto simp: removeAll_filter_not_eq intro: filter_cong)
    moreover have "set_add x acc = acc @ [x]" using False by (simp add: set_add_def)
    ultimately show ?thesis unfolding step Cons.IH using False by simp
  qed
qed

lemma is_name_char_not_bracket [simp]:
  "\<not> is_name_char CHR ''[''" "\<not> is_name_char CHR '']''" "\<not> is_name_char CHR 0x0A"
  "\<not> is_name_char CHR ''$''"
  by (simp_all add: is_name_char_def)

lemma match_name_Some:
  assumes "match_name cs = Some (n, r)"
  shows "cs = n @ CHR '']'' # r" and "is_name n"
proof -
  from assms have n: "n = takeWhile is_name_char cs" "n \<noteq> []"
    and d: "dropWhile is_name_char cs \<noteq> []" "hd (dropWhile is_name_char cs) = CHR '']''"
      "r = tl (dropWhile is_name_char cs)"
    by (auto simp: match_name_def Let_def split: if_splits)
  from d have "dropWhile is_name_char cs = CHR '']'' # r"
    by (cases "dropWhile is_name_char cs") simp_all
  with n(1) show "cs = n @ CHR '']'' # r"
    using takeWhile_dropWhile_id [of is_name_char cs] by simp
  from n show "is_name n"
    by (auto simp: is_name_def list_all_iff dest: set_takeWhileD)
qed

lemma match_name_token:
  "is_name n \<Longrightarrow> match_name (n @ CHR '']'' # post) = Some (n, post)"
  by (simp add: match_name_def is_name_def list_all_iff takeWhile_append2 dropWhile_append2)

lemma exec_all_sound:
  "n \<in> set (exec_all t) \<Longrightarrow> is_name n \<and> (\<exists>pre post. t = pre @ token n @ post)"
proof (induction t rule: exec_all.induct)
  case 1
  then show ?case by simp
next
  case (2 c cs)
  show ?case
  proof (cases "c = CHR ''[''")
    case False
    with 2 have "is_name n \<and> (\<exists>pre post. cs = pre @ token n @ post)" by simp
    then obtain pre post where "is_name n" "cs = pre @ token n @ post" by blast
    then have "is_name n" "c # cs = (c # pre) @ token n @ post" by simp_all
    then show ?thesis by blast
  next
    case True
    show ?thesis
    proof (cases "match_name cs")
      case None
      with 2 True have "is_name n \<and> (\<exists>pre post. cs = pre @ token n @ post)" by simp
      then obtain pre post where "is_name n" "cs = pre @ token n @ post" by blast
      then have "is_name n" "c # cs = (c # pre) @ token n @ post" by simp_all
      then show ?thesis by blast
    next
      case (Some a)
      obtain m r where a: "a = (m, r)" by (cases a)
      note mr = match_name_Some [OF Some [unfolded a]]
      from 2 True Some a have "n = m \<or> n \<in> set (exec_all r)" by simp
      then show ?thesis
      proof
        assume "n = m"
        with mr True have "is_name n" "c # cs = [] @ token n @ r" by (simp_all add: token_def)
        then show ?thesis by blast
      next
        assume "n \<in> set (exec_all r)"
        then have "is_name n \<and> (\<exists>pre post. r = pre @ token n @ post)"
          by (rule "2.IH"(2) [OF True Some a [symmetric]])
        then obtain pre post where "is_name n" "r = pre @ token n @ post" by blast
        with mr(1) have "is_name n" "c # cs = (c # m @ CHR '']'' # pre) @ token n @ post"
          by simp_all
        then show ?thesis by blast
      qed
    qed
  qed
qed

lemma match_name_before_bracket:
  assumes "match_name (pre @ CHR ''['' # tl0) = Some (m, r)"
  shows "\<exists>pre2. r = pre2 @ CHR ''['' # tl0"
proof (cases "\<forall>x\<in>set pre. is_name_char x")
  case True
  then have "dropWhile is_name_char (pre @ CHR ''['' # tl0) = CHR ''['' # tl0"
    by (simp add: dropWhile_append2)
  with assms show ?thesis by (simp add: match_name_def Let_def split: if_splits)
next
  case False
  then have d: "dropWhile is_name_char (pre @ CHR ''['' # tl0) =
      dropWhile is_name_char pre @ CHR ''['' # tl0" and ne: "dropWhile is_name_char pre \<noteq> []"
    by (auto simp: dropWhile_append1 dropWhile_eq_Nil_conv)
  from assms have "r = tl (dropWhile is_name_char (pre @ CHR ''['' # tl0))"
    by (auto simp: match_name_def Let_def split: if_splits)
  with d ne have "r = tl (dropWhile is_name_char pre) @ CHR ''['' # tl0" by simp
  then show ?thesis by blast
qed

lemma exec_all_complete:
  "t = pre @ token n @ post \<Longrightarrow> is_name n \<Longrightarrow> n \<in> set (exec_all t)"
proof (induction t arbitrary: pre rule: exec_all.induct)
  case 1
  then show ?case by (simp add: token_def)
next
  case (2 c cs)
  show ?case
  proof (cases pre)
    case Nil
    with "2.prems" have "c = CHR ''[''" "cs = n @ CHR '']'' # post" by (simp_all add: token_def)
    then show ?thesis using match_name_token [OF "2.prems"(2), of post] by simp
  next
    case (Cons p pre1)
    with "2.prems" have cs: "p = c" "cs = pre1 @ token n @ post" by simp_all
    show ?thesis
    proof (cases "c = CHR ''['' \<and> match_name cs \<noteq> None")
      case False
      show ?thesis
      proof (cases "c = CHR ''[''")
        case True
        with False have none: "match_name cs = None" by blast
        have "n \<in> set (exec_all cs)"
          by (rule "2.IH"(1) [OF True none cs(2) "2.prems"(2)])
        with True none show ?thesis by simp
      next
        case False
        have "n \<in> set (exec_all cs)"
          by (rule "2.IH"(3) [OF False cs(2) "2.prems"(2)])
        with False show ?thesis by simp
      qed
    next
      case True
      then obtain m r where mr: "match_name cs = Some (m, r)" by auto
      from mr cs(2) obtain pre2 where "r = pre2 @ CHR ''['' # n @ CHR '']'' # post"
        using match_name_before_bracket [of pre1 "n @ CHR '']'' # post" m r]
        by (auto simp: token_def)
      then have "r = pre2 @ token n @ post" by (simp add: token_def)
      from "2.IH"(2) [OF _ mr refl this "2.prems"(2)] True have "n \<in> set (exec_all r)" by simp
      with True mr show ?thesis by simp
    qed
  qed
qed


lemma match_name_append:
  assumes "cs \<noteq> []" and "last cs = CHR 0x0A"
  shows "match_name (cs @ b) = map_option (\<lambda>(n, r). (n, r @ b)) (match_name cs)"
    and "match_name cs = Some (n, r) \<Longrightarrow> r \<noteq> [] \<and> last r = CHR 0x0A"
proof -
  have "last cs \<in> set cs" using assms(1) by simp
  moreover have "\<not> is_name_char (last cs)" using assms(2) by simp
  ultimately have ex: "\<exists>x\<in>set cs. \<not> is_name_char x" by blast
  then have t: "takeWhile is_name_char (cs @ b) = takeWhile is_name_char cs"
    and d: "dropWhile is_name_char (cs @ b) = dropWhile is_name_char cs @ b"
    and ne: "dropWhile is_name_char cs \<noteq> []"
    by (auto simp: takeWhile_append1 dropWhile_append1 dropWhile_eq_Nil_conv)
  show "match_name (cs @ b) = map_option (\<lambda>(n, r). (n, r @ b)) (match_name cs)"
    using ne by (simp add: match_name_def t d Let_def)
  assume "match_name cs = Some (n, r)"
  then have cs: "cs = n @ CHR '']'' # r" by (rule match_name_Some)
  show "r \<noteq> [] \<and> last r = CHR 0x0A"
  proof (cases r)
    case Nil
    with cs assms(2) show ?thesis by simp
  next
    case (Cons a list)
    with cs assms(2) show ?thesis by simp
  qed
qed

lemma exec_all_append:
  "a = [] \<or> last a = CHR 0x0A \<Longrightarrow> exec_all (a @ b) = exec_all a @ exec_all b"
proof (induction a rule: exec_all.induct)
  case 1
  show ?case by simp
next
  case (2 c cs)
  then have l: "last (c # cs) = CHR 0x0A" by simp
  show ?case
  proof (cases "c = CHR ''[''")
    case False
    from l have "cs = [] \<or> last cs = CHR 0x0A" by (cases cs) simp_all
    from "2.IH"(3) [OF False this] False show ?thesis by simp
  next
    case True
    with l have cs: "cs \<noteq> []" "last cs = CHR 0x0A" by (cases cs; simp)+
    note app = match_name_append [OF cs]
    show ?thesis
    proof (cases "match_name cs")
      case None
      from "2.IH"(1) [OF True None] cs True None app(1) [of b] show ?thesis by simp
    next
      case (Some x)
      obtain n r where x: "x = (n, r)" by (cases x)
      from app(2) [OF Some [unfolded x]] have "r = [] \<or> last r = CHR 0x0A" by simp
      from "2.IH"(2) [OF True Some x [symmetric] this] True Some x app(1) [of b]
      show ?thesis by simp
    qed
  qed
qed

lemma componentText_boundary:
  "componentText c = [] \<or> last (componentText c) = CHR 0x0A"
  by (simp add: componentText_def)

lemma exec_all_rendered_text:
  "concat (map (\<lambda>c. exec_all (componentText c)) comps) = exec_all (rendered_text comps)"
  by (induction comps)
    (simp_all add: rendered_text_def exec_all_append [OF componentText_boundary])

lemma foldl_forEach_step:
  "foldl forEach_step (t, d) comps =
     (t @ rendered_text comps,
      foldl (\<lambda>d n. set_add n d) d (concat (map (\<lambda>c. exec_all (componentText c)) comps)))"
  by (induction comps arbitrary: t d) (simp_all add: rendered_text_def)

lemma forEach_result:
  "foldl forEach_step ([], []) comps =
     (rendered_text comps, first_occurrences (exec_all (rendered_text comps)))"
  by (simp add: foldl_forEach_step foldl_set_add exec_all_rendered_text)


lemma renderVariableInputs_step_eq:
  "renderVariableInputs_step s n =
     s\<lparr>variables := variables s @ defaults (variables s) [n],
       variableForm := variableForm s @ [(n, shown_value (variables s) n)]\<rparr>"
  by (cases "map_of (variables s) n")
    (simp_all add: renderVariableInputs_step_def defaults_def shown_value_def Let_def map_add_def)

lemma map_of_defaults_other:
  "m \<noteq> n \<Longrightarrow> map_of (vars @ defaults vars [n]) m = map_of vars m"
  by (simp add: defaults_def map_add_def split: option.split)

lemma defaults_Cons:
  assumes "n \<notin> set ns"
  shows "defaults vars [n] @ defaults (vars @ defaults vars [n]) ns = defaults vars (n # ns)"
proof -
  have ne: "\<And>m. m \<in> set ns \<Longrightarrow> map_of (vars @ defaults vars [n]) m = map_of vars m"
    using assms by (intro map_of_defaults_other) auto
  have "filter (\<lambda>m. map_of (vars @ defaults vars [n]) m = None) ns =
      filter (\<lambda>m. map_of vars m = None) ns"
    by (intro filter_cong refl) (simp only: ne)
  then show ?thesis by (simp add: defaults_def)
qed

lemma shown_value_Cons:
  assumes "n \<notin> set ns"
  shows "map (\<lambda>m. (m, shown_value (vars @ defaults vars [n]) m)) ns =
      map (\<lambda>m. (m, shown_value vars m)) ns"
proof -
  have ne: "\<And>m. m \<in> set ns \<Longrightarrow> map_of (vars @ defaults vars [n]) m = map_of vars m"
    using assms by (intro map_of_defaults_other) auto
  show ?thesis by (intro map_cong refl) (simp only: shown_value_def ne)
qed

lemma foldl_renderVariableInputs_step:
  "distinct ns \<Longrightarrow> foldl renderVariableInputs_step s ns =
     s\<lparr>variables := variables s @ defaults (variables s) ns,
       variableForm := variableForm s @ map (\<lambda>n. (n, shown_value (variables s) n)) ns\<rparr>"
proof (induction ns arbitrary: s)
  case Nil
  show ?case by (simp add: defaults_def)
next
  case (Cons n ns)
  then have d: "distinct ns" "n \<notin> set ns" by simp_all
  let ?s1 = "renderVariableInputs_step s n"
  have v1: "variables ?s1 = variables s @ defaults (variables s) [n]"
    and f1: "variableForm ?s1 = variableForm s @ [(n, shown_value (variables s) n)]"
    by (simp_all add: renderVariableInputs_step_eq)
  have "foldl renderVariableInputs_step s (n # ns) = foldl renderVariableInputs_step ?s1 ns"
    by simp
  also have "\<dots> = ?s1\<lparr>variables := variables ?s1 @ defaults (variables ?s1) ns,
       variableForm := variableForm ?s1 @ map (\<lambda>n. (n, shown_value (variables ?s1) n)) ns\<rparr>"
    by (rule Cons.IH [OF d(1)])
  also have "\<dots> = s\<lparr>variables := variables s @ defaults (variables s) (n # ns),
       variableForm := variableForm s @ map (\<lambda>n. (n, shown_value (variables s) n)) (n # ns)\<rparr>"
    unfolding v1 f1
    by (simp add: renderVariableInputs_step_eq defaults_Cons [OF d(2), symmetric]
        shown_value_Cons [OF d(2)])
  finally show ?case .
qed

lemma renderVariableInputs_eq:
  "distinct ns \<Longrightarrow> renderVariableInputs ns s =
     s\<lparr>variables := variables s @ defaults (variables s) ns,
       variableForm := map (\<lambda>n. (n, shown_value (variables s) n)) ns\<rparr>"
  by (simp add: renderVariableInputs_def foldl_renderVariableInputs_step defaults_def)

lemma get_substitution_plain:
  "CHR ''$'' \<notin> set r \<Longrightarrow> get_substitution m p q r = r"
  by (induction m p q r rule: get_substitution.induct) auto

lemma replace_all_same:
  "CHR ''$'' \<notin> set key \<Longrightarrow> replace_all key (token key) p t = t"
proof (induction key "token key" p t rule: replace_all.induct)
  case (1 key preceding)
  show ?case by simp
next
  case (2 key preceding c cs)
  show ?case
  proof (cases "prefix (token key) (c # cs)")
    case True
    then have "token key @ drop (length (token key)) (c # cs) = c # cs"
      by (auto simp: prefix_def)
    moreover have "get_substitution (token key) preceding (drop (length (token key)) (c # cs))
        (token key) = token key"
      using "2.prems" by (intro get_substitution_plain) (simp add: token_def)
    ultimately show ?thesis using True "2.hyps"(1) [OF True "2.prems"] by simp
  next
    case False
    then show ?thesis using "2.hyps"(2) [OF False "2.prems"] by simp
  qed
qed

lemma is_name_no_dollar: "is_name n \<Longrightarrow> CHR ''$'' \<notin> set n"
  by (auto simp: is_name_def list_all_iff)

lemma substitute_defaults:
  "\<forall>n\<in>set ns. is_name n \<Longrightarrow> substitute (vars @ defaults vars' ns) t = substitute vars t"
proof (induction ns rule: rev_induct)
  case Nil
  show ?case by (simp add: defaults_def)
next
  case (snoc n ns)
  then have ih: "substitute (vars @ defaults vars' ns) t = substitute vars t" by simp
  from snoc.prems have "CHR ''$'' \<notin> set n" by (simp add: is_name_no_dollar)
  then show ?case
    using ih by (simp add: defaults_def substitute_def replace_all_same)
qed

lemma updatePreviewAndVariables_eq:
  "updatePreviewAndVariables s =
     s\<lparr>variables := variables s @
          defaults (variables s) (first_occurrences (exec_all (rendered_text (components s)))),
       variableForm := map (\<lambda>n. (n, shown_value (variables s) n))
          (first_occurrences (exec_all (rendered_text (components s)))),
       livePreview := trim (substitute (variables s) (rendered_text (components s)))\<rparr>"
proof -
  let ?ns = "first_occurrences (exec_all (rendered_text (components s)))"
  have "\<forall>n\<in>set ?ns. is_name n" using exec_all_sound by auto
  then have "substitute (variables s @ defaults (variables s) ?ns) (rendered_text (components s))
      = substitute (variables s) (rendered_text (components s))"
    by (rule substitute_defaults)
  then show ?thesis
    by (simp add: updatePreviewAndVariables_def forEach_result renderVariableInputs_eq)
qed


lemma map_of_const_keys:
  "map_of (map (\<lambda>n. (n, v)) zs) k = (if k \<in> set zs then Some v else None)"
  by (induction zs) simp_all

lemma map_of_defaults:
  "map_of (vars @ defaults vars ns) k =
     (case map_of vars k of Some v \<Rightarrow> Some v | None \<Rightarrow> if k \<in> set ns then Some [] else None)"
  by (simp add: defaults_def map_of_const_keys map_add_def split: option.split)

lemma defaults_nil: "(\<And>n. n \<in> set ns \<Longrightarrow> map_of vs n \<noteq> None) \<Longrightarrow> defaults vs ns = []"
  by (simp add: defaults_def filter_empty_conv)

lemma defaults_again: "defaults (vars @ defaults vars ns) ns = []"
  by (rule defaults_nil) (simp add: map_of_defaults del: map_of_append split: option.split)

lemma shown_value_again:
  "shown_value (vars @ defaults vars ns) n = shown_value vars n"
  by (simp add: shown_value_def map_of_defaults del: map_of_append split: option.split)

lemma updatePreviewAndVariables_idem:
  "updatePreviewAndVariables (updatePreviewAndVariables s) = updatePreviewAndVariables s"
proof -
  let ?ns = "first_occurrences (exec_all (rendered_text (components s)))"
  let ?s1 = "updatePreviewAndVariables s"
  have c: "components ?s1 = components s" by simp
  have v: "variables ?s1 = variables s @ defaults (variables s) ?ns"
    by (simp add: updatePreviewAndVariables_eq)
  have names: "\<forall>n\<in>set ?ns. is_name n" using exec_all_sound by auto
  have sub: "substitute (variables ?s1) (rendered_text (components s)) =
      substitute (variables s) (rendered_text (components s))"
    unfolding v using names by (rule substitute_defaults)
  have "updatePreviewAndVariables ?s1 =
      ?s1\<lparr>variables := variables ?s1 @ defaults (variables ?s1) ?ns,
          variableForm := map (\<lambda>n. (n, shown_value (variables ?s1) n)) ?ns,
          livePreview := trim (substitute (variables ?s1) (rendered_text (components s)))\<rparr>"
    using updatePreviewAndVariables_eq [of ?s1] by (simp only: c)
  also have "\<dots> = ?s1\<lparr>variables := variables s @ defaults (variables s) ?ns,
          variableForm := map (\<lambda>n. (n, shown_value (variables s) n)) ?ns,
          livePreview := trim (substitute (variables s) (rendered_text (components s)))\<rparr>"
    unfolding sub unfolding v by (simp only: defaults_again shown_value_again append_Nil2)
  also have "\<dots> = ?s1"
    by (simp add: updatePreviewAndVariables_eq)
  finally show ?thesis .
qed

lemma topic_example_eval:
  "updatePreviewAndVariables topic_example = topic_example
     \<lparr>variables := [(''TOPIC'', ''Rust''), (''LEVEL_'', [])],
      variableForm := [(''TOPIC'', ''Rust''), (''LEVEL_'', [])],
      livePreview := ''# Topic: Rust\<newline>\<newline>[value]: Rust at [LEVEL_]''\<rparr>"
  by code_simp

text \<open>
  Claim C10.  Running \<open>updatePreviewAndVariables\<close> a second time on unchanged components
  changes nothing: the variable form lists the same names, which are the detected names of
  the rendered text, and the variable mapping is the same.  A run keeps every stored value
  and gives the empty string to each detected name that had no entry.
\<close>

theorem detection_idempotent:
  "updatePreviewAndVariables (updatePreviewAndVariables s) = updatePreviewAndVariables s
   \<and> map fst (variableForm (updatePreviewAndVariables s)) =
       first_occurrences (exec_all (rendered_text (components s)))
   \<and> (\<forall>k v. map_of (variables s) k = Some v \<longrightarrow>
         map_of (variables (updatePreviewAndVariables s)) k = Some v)
   \<and> (\<forall>n \<in> set (map fst (variableForm (updatePreviewAndVariables s))).
         map_of (variables s) n = None \<longrightarrow>
         map_of (variables (updatePreviewAndVariables s)) n = Some [])"
proof (intro conjI allI impI ballI)
  show "updatePreviewAndVariables (updatePreviewAndVariables s) = updatePreviewAndVariables s"
    by (rule updatePreviewAndVariables_idem)
  show f: "map fst (variableForm (updatePreviewAndVariables s)) =
       first_occurrences (exec_all (rendered_text (components s)))"
    by (simp add: updatePreviewAndVariables_eq comp_def)
  show "map_of (variables (updatePreviewAndVariables s)) k = Some v"
    if "map_of (variables s) k = Some v" for k v
    using that by (simp add: updatePreviewAndVariables_eq map_of_defaults del: map_of_append)
  show "map_of (variables (updatePreviewAndVariables s)) n = Some []"
    if "n \<in> set (map fst (variableForm (updatePreviewAndVariables s)))"
      and "map_of (variables s) n = None" for n
    using that unfolding f
    by (simp add: updatePreviewAndVariables_eq map_of_defaults del: map_of_append)
qed

theorem detection_idempotent_witness:
  "map_of (variables topic_example) ''TOPIC'' = Some ''Rust''
   \<and> map_of (variables (updatePreviewAndVariables topic_example)) ''TOPIC'' = Some ''Rust''
   \<and> ''LEVEL_'' \<in> set (map fst (variableForm (updatePreviewAndVariables topic_example)))
   \<and> map_of (variables topic_example) ''LEVEL_'' = None
   \<and> map_of (variables (updatePreviewAndVariables topic_example)) ''LEVEL_'' = Some []"
proof -
  have h1: "map_of (variables topic_example) ''TOPIC'' = Some ''Rust''"
    and h3: "map_of (variables topic_example) ''LEVEL_'' = None"
    by (simp_all add: topic_example_def initial_state_def)
  have h2: "''LEVEL_'' \<in> set (map fst (variableForm (updatePreviewAndVariables topic_example)))"
    by (simp add: topic_example_eval)
  from detection_idempotent [of topic_example] h1 h2 h3 show ?thesis by blast
qed

section \<open>The preview\<close>

lemma trim_decompose:
  "\<exists>l r. list_all is_space l \<and> list_all is_space r \<and> t = l @ trim t @ r"
proof -
  let ?d = "dropWhile is_space t"
  have "t = takeWhile is_space t @ ?d" by simp
  moreover have "trim t @ rev (takeWhile is_space (rev ?d)) =
      rev (takeWhile is_space (rev ?d) @ dropWhile is_space (rev ?d))"
    by (simp only: trim_def rev_append)
  then have "?d = trim t @ rev (takeWhile is_space (rev ?d))"
    by (simp only: takeWhile_dropWhile_id rev_rev_ident)
  ultimately have "t = takeWhile is_space t @ trim t @ rev (takeWhile is_space (rev ?d))"
    by simp
  moreover have "list_all is_space (takeWhile is_space t)"
    "list_all is_space (rev (takeWhile is_space (rev ?d)))"
    by (auto simp: list_all_iff dest: set_takeWhileD)
  ultimately show ?thesis by blast
qed

lemma trim_ends:
  assumes "trim t \<noteq> []"
  shows "\<not> is_space (hd (trim t))" and "\<not> is_space (last (trim t))"
proof -
  let ?d = "dropWhile is_space t"
  let ?e = "dropWhile is_space (rev ?d)"
  from assms have e: "?e \<noteq> []" by (simp add: trim_def)
  then have "\<not> is_space (hd ?e)" by (rule hd_dropWhile)
  then show "\<not> is_space (last (trim t))" using e by (simp add: trim_def last_rev)
  have "?d = [] \<Longrightarrow> ?e = []" by (simp only: rev.simps dropWhile.simps)
  with e have d: "?d \<noteq> []" by blast
  then have nd: "\<not> is_space (hd ?d)" by (rule hd_dropWhile)
  then have "\<not> is_space (last (rev ?d))" using d by (simp add: last_rev)
  have "last ?e = last (rev ?d)"
    using e by (metis last_appendR takeWhile_dropWhile_id)
  then have "hd (trim t) = hd ?d" using e d by (simp add: trim_def hd_rev last_rev)
  with nd show "\<not> is_space (hd (trim t))" by simp
qed

text \<open>
  Claim C5.  The preview is the concatenation, in list order, of the renderings of the
  components, with the substitution pass applied and then trimmed.  A heading renders as
  \<open>#\<close>, a space, the content and a blank line; a text block as the content and a blank line;
  a key-value pair as the key, a colon, a space, the value and one line break.  Trimming
  removes exactly the white space at both ends.  For the single heading with content
  \<open>Topic: [TOPIC]\<close> and \<open>TOPIC\<close> set to \<open>Rust\<close> the preview is \<open># Topic: Rust\<close>, also when the
  state is reached from the empty canvas by a drop, an edit and an entry in the form.
\<close>

theorem preview_is_trimmed_substituted_rendering:
  "livePreview (updatePreviewAndVariables s) =
     trim (substitute (variables s) (concat (map componentText (components s))))
   \<and> componentText \<lparr>c_id = i, c_type = ''heading'', c_content = Some t, c_key = k, c_value = v\<rparr>
       = ''# '' @ t @ ''\<newline>\<newline>''
   \<and> componentText \<lparr>c_id = i, c_type = ''text-block'', c_content = Some t, c_key = k, c_value = v\<rparr>
       = t @ ''\<newline>\<newline>''
   \<and> componentText \<lparr>c_id = i, c_type = ''key-value'', c_content = c, c_key = Some a, c_value = Some b\<rparr>
       = a @ '': '' @ b @ ''\<newline>''
   \<and> (\<exists>l r. list_all is_space l \<and> list_all is_space r \<and> w = l @ trim w @ r)
   \<and> (trim w \<noteq> [] \<longrightarrow> \<not> is_space (hd (trim w)) \<and> \<not> is_space (last (trim w)))
   \<and> livePreview (updatePreviewAndVariables (initial_state
        \<lparr>components := [\<lparr>c_id = i, c_type = ''heading'', c_content = Some ''Topic: [TOPIC]'',
                           c_key = None, c_value = None\<rparr>],
         variables := [(''TOPIC'', ''Rust'')]\<rparr>)) = ''# Topic: Rust''
   \<and> map_sum id (\<lambda>s1. let s2 = input_handler now ''content'' ''Topic: [TOPIC]'' s1;
                           s3 = variable_input ''TOPIC'' ''Rust'' s2
                        in (map fst (variableForm s2), livePreview s3))
        (drop_handler None ''heading'' now initial_state) = Inr ([''TOPIC''], ''# Topic: Rust'')"
proof (intro conjI)
  show "livePreview (updatePreviewAndVariables s) =
     trim (substitute (variables s) (concat (map componentText (components s))))"
    by (simp add: updatePreviewAndVariables_eq rendered_text_def)
  show "\<exists>l r. list_all is_space l \<and> list_all is_space r \<and> w = l @ trim w @ r"
    by (rule trim_decompose)
  show "trim w \<noteq> [] \<longrightarrow> \<not> is_space (hd (trim w)) \<and> \<not> is_space (last (trim w))"
    using trim_ends by blast
  show "livePreview (updatePreviewAndVariables (initial_state
        \<lparr>components := [\<lparr>c_id = i, c_type = ''heading'', c_content = Some ''Topic: [TOPIC]'',
                           c_key = None, c_value = None\<rparr>],
         variables := [(''TOPIC'', ''Rust'')]\<rparr>)) = ''# Topic: Rust''"
    by (simp add: updatePreviewAndVariables_eq rendered_text_def componentText_def
        template_str_def substitute_def token_def trim_def is_space_def)
  show "map_sum id (\<lambda>s1. let s2 = input_handler now ''content'' ''Topic: [TOPIC]'' s1;
                           s3 = variable_input ''TOPIC'' ''Rust'' s2
                        in (map fst (variableForm s2), livePreview s3))
        (drop_handler None ''heading'' now initial_state) = Inr ([''TOPIC''], ''# Topic: Rust'')"
    by (simp add: drop_handler_def initial_state_def createNewComponent_def splice_insert_def
        render_def input_handler_def set_property_def variable_input_def
        updatePreviewAndVariables_eq rendered_text_def componentText_def
        template_str_def substitute_def token_def trim_def is_space_def match_name_def
        is_name_char_def defaults_def shown_value_def comp_def)
qed (simp_all add: componentText_def template_str_def)

theorem preview_is_trimmed_substituted_rendering_witness:
  "trim ''  a b  '' \<noteq> [] \<and> \<not> is_space (hd (trim ''  a b  '')) \<and> \<not> is_space (last (trim ''  a b  ''))"
  using preview_is_trimmed_substituted_rendering [where w = "''  a b  ''"]
  by (simp add: trim_def is_space_def)

section \<open>Saving a template\<close>

lemma templates_submit:
  assumes "trim templateName \<noteq> []"
  shows "snd (saveTemplateForm_submit templateName now writable s) =
     (let stored = templates s @
            [\<lparr>t_id = now, t_name = trim templateName, t_components = components s\<rparr>]
      in s\<lparr>templates := stored,
            localStorage := (if writable then Some stored else localStorage s),
            modalHidden := True\<rparr>)"
  using assms
  by (simp add: saveTemplateForm_submit_def saveState_def closeModal_def Let_def)

text \<open>
  Claim C8, as stated: a blank name is rejected with an error reported to the caller, and
  every other save appends a template with a unique id and persists the store.  On the
  canvas with three components: a name of two spaces is ignored without any message; two
  submits at the same clock reading store two templates with the same id; and a submit
  whose write to \<open>localStorage\<close> fails appends the template and leaves \<open>localStorage\<close> as
  it was.
\<close>

theorem save_deviations_counterexample:
  "saveTemplateForm_submit ''  '' 7 True three = (None, three)
   \<and> map t_id (templates (snd (saveTemplateForm_submit ''b'' 7 True
         (snd (saveTemplateForm_submit ''a'' 7 True three))))) = [7, 7]
   \<and> map t_name (templates (snd (saveTemplateForm_submit ''a'' 7 False three))) = [''a'']
   \<and> localStorage (snd (saveTemplateForm_submit ''a'' 7 False three)) = None"
  by (simp add: saveTemplateForm_submit_def saveState_def closeModal_def trim_def is_space_def
      three_def initial_state_def Let_def)

text \<open>
  Claim C8, amended: with an empty component list the save button shows an alert and changes
  nothing; submitting a name that is blank after trimming changes nothing; with a
  component list that is not empty and a name that is not blank, the button opens the
  dialog and the submit appends to the store one template, whose id is the clock reading,
  whose name is the trimmed name (no white space at either end) and whose components are a
  copy of the component list, leaves the component list and the variables as they are, and
  writes the new store to \<open>localStorage\<close> whenever the write succeeds.  The stored ids stay
  pairwise distinct whenever the clock reading is not among them.
\<close>

theorem save_template:
  "(components s = [] \<longrightarrow>
      saveTemplateButton_click s =
        (Some ''Cannot save an empty prompt. Add some components first.'', s))
   \<and> (trim templateName = [] \<longrightarrow>
        snd (saveTemplateForm_submit templateName now writable s) = s)
   \<and> (components s \<noteq> [] \<and> trim templateName \<noteq> [] \<longrightarrow>
        saveTemplateButton_click s = (None, s\<lparr>modalHidden := False\<rparr>)
        \<and> (let s' = snd (saveTemplateForm_submit templateName now writable s);
                 new = last (templates s')
             in templates s' = templates s @ [new]
                \<and> t_id new = now
                \<and> t_name new = trim templateName
                \<and> \<not> is_space (hd (t_name new)) \<and> \<not> is_space (last (t_name new))
                \<and> t_components new = components s
                \<and> components s' = components s
                \<and> variables s' = variables s
                \<and> (writable \<longrightarrow> localStorage s' = Some (templates s'))
                \<and> (distinct (map t_id (templates s)) \<and> now \<notin> t_id ` set (templates s) \<longrightarrow>
                     distinct (map t_id (templates s')))))"
proof (intro conjI impI)
  assume "components s = []"
  then show "saveTemplateButton_click s =
        (Some ''Cannot save an empty prompt. Add some components first.'', s)"
    by (simp add: saveTemplateButton_click_def)
next
  assume "trim templateName = []"
  then show "snd (saveTemplateForm_submit templateName now writable s) = s"
    by (simp add: saveTemplateForm_submit_def)
next
  assume a: "components s \<noteq> [] \<and> trim templateName \<noteq> []"
  then show "saveTemplateButton_click s = (None, s\<lparr>modalHidden := False\<rparr>)"
    by (simp add: saveTemplateButton_click_def)
  from a have n: "trim templateName \<noteq> []" by simp
  note ends = trim_ends [OF n]
  show "let s' = snd (saveTemplateForm_submit templateName now writable s);
            new = last (templates s')
        in templates s' = templates s @ [new]
           \<and> t_id new = now
           \<and> t_name new = trim templateName
           \<and> \<not> is_space (hd (t_name new)) \<and> \<not> is_space (last (t_name new))
           \<and> t_components new = components s
           \<and> components s' = components s
           \<and> variables s' = variables s
           \<and> (writable \<longrightarrow> localStorage s' = Some (templates s'))
           \<and> (distinct (map t_id (templates s)) \<and> now \<notin> t_id ` set (templates s) \<longrightarrow>
                distinct (map t_id (templates s')))"
    unfolding templates_submit [OF n] using ends by (simp add: Let_def)
qed

theorem save_template_witness:
  "saveTemplateButton_click initial_state =
      (Some ''Cannot save an empty prompt. Add some components first.'', initial_state)
   \<and> snd (saveTemplateForm_submit ''  '' 7 True three_saved) = three_saved
   \<and> saveTemplateButton_click three_saved = (None, three_saved\<lparr>modalHidden := False\<rparr>)
   \<and> (let s' = snd (saveTemplateForm_submit '' My prompt '' 7 True three_saved);
            new = last (templates s')
        in templates s' = templates three_saved @ [new]
           \<and> t_id new = 7
           \<and> t_name new = ''My prompt''
           \<and> t_components new = components three_saved
           \<and> localStorage s' = Some (templates s')
           \<and> distinct (map t_id (templates s')))"
proof -
  have e1: "components initial_state = []"
    by (simp add: initial_state_def)
  have e2: "trim ''  '' = []"
    by (simp add: trim_def is_space_def)
  have e3: "components three_saved \<noteq> [] \<and> trim '' My prompt '' \<noteq> []"
    by (simp add: three_saved_def three_def initial_state_def trim_def is_space_def)
  have e4: "trim '' My prompt '' = ''My prompt''"
    by (simp add: trim_def is_space_def)
  have e5: "distinct (map t_id (templates three_saved)) \<and> 7 \<notin> t_id ` set (templates three_saved)"
    by (simp add: three_saved_def three_def initial_state_def)
  from save_template [of initial_state "''  ''" 7 True] e1
  have c1: "saveTemplateButton_click initial_state =
      (Some ''Cannot save an empty prompt. Add some components first.'', initial_state)"
    by blast
  from save_template [of three_saved "''  ''" 7 True] e2
  have c2: "snd (saveTemplateForm_submit ''  '' 7 True three_saved) = three_saved"
    by blast
  from save_template [of three_saved "'' My prompt ''" 7 True] e3
  have c3: "saveTemplateButton_click three_saved = (None, three_saved\<lparr>modalHidden := False\<rparr>)
        \<and> (let s' = snd (saveTemplateForm_submit '' My prompt '' 7 True three_saved);
                 new = last (templates s')
             in templates s' = templates three_saved @ [new]
                \<and> t_id new = 7
                \<and> t_name new = trim '' My prompt ''
                \<and> \<not> is_space (hd (t_name new)) \<and> \<not> is_space (last (t_name new))
                \<and> t_components new = components three_saved
                \<and> components s' = components three_saved
                \<and> variables s' = variables three_saved
                \<and> (True \<longrightarrow> localStorage s' = Some (templates s'))
                \<and> (distinct (map t_id (templates three_saved))
                      \<and> 7 \<notin> t_id ` set (templates three_saved) \<longrightarrow>
                     distinct (map t_id (templates s'))))"
    by blast
  from c3 e5 have c4: "let s' = snd (saveTemplateForm_submit '' My prompt '' 7 True three_saved);
            new = last (templates s')
        in templates s' = templates three_saved @ [new]
           \<and> t_id new = 7
           \<and> t_name new = ''My prompt''
           \<and> t_components new = components three_saved
           \<and> localStorage s' = Some (templates s')
           \<and> distinct (map t_id (templates s'))"
    unfolding Let_def e4 by blast
  from c1 c2 c3 c4 show ?thesis by blast
qed

section \<open>Detected names and tokens that are not variables\<close>

lemma first_occurrences_snoc:
  "first_occurrences (xs @ [x]) =
     (if x \<in> set xs then first_occurrences xs else first_occurrences xs @ [x])"
  by (induction xs) auto

lemma token_not_prefix_skip:
  "c \<noteq> CHR ''['' \<Longrightarrow> \<not> prefix (token key) (c # cs)"
  by (simp add: token_def)

lemma replace_all_skip:
  "CHR ''['' \<notin> set a \<Longrightarrow> replace_all key r p (a @ t) = a @ replace_all key r (p @ a) t"
proof (induction a arbitrary: p)
  case Nil
  show ?case by simp
next
  case (Cons c a)
  then have "c \<noteq> CHR ''[''" "CHR ''['' \<notin> set a" by auto
  then show ?case
    using Cons.IH [of "p @ [c]"] by (simp add: token_not_prefix_skip)
qed

lemma name_before_bracket:
  assumes "CHR '']'' \<notin> set a" "CHR '']'' \<notin> set b" "a @ CHR '']'' # x = b @ CHR '']'' # y"
  shows "a = b"
proof -
  have "takeWhile (\<lambda>c. c \<noteq> CHR '']'') (a @ CHR '']'' # x) = a"
    using assms(1) by (auto simp: takeWhile_tail)
  moreover have "takeWhile (\<lambda>c. c \<noteq> CHR '']'') (b @ CHR '']'' # y) = b"
    using assms(2) by (auto simp: takeWhile_tail)
  ultimately show ?thesis using assms(3) by simp
qed

lemma is_name_no_bracket: "is_name k \<Longrightarrow> CHR ''['' \<notin> set k \<and> CHR '']'' \<notin> set k"
  by (auto simp: is_name_def list_all_iff)

lemma replace_all_keeps_token:
  assumes "is_name key" and "\<not> is_name n" and "CHR '']'' \<notin> set n" and "CHR ''['' \<notin> set n"
  shows "replace_all key r p (token n @ post) = token n @ replace_all key r (p @ token n) post"
proof -
  have np: "\<not> prefix (token key) (token n @ post)"
  proof
    assume "prefix (token key) (token n @ post)"
    then obtain z where "token n @ post = token key @ z" by (auto simp: prefix_def)
    then have eq: "n @ CHR '']'' # post = key @ CHR '']'' # z" by (simp add: token_def)
    have "CHR '']'' \<notin> set key" using is_name_no_bracket [OF assms(1)] by simp
    from assms(3) this eq have "n = key" by (rule name_before_bracket)
    with assms(1,2) show False by simp
  qed
  have "CHR ''['' \<notin> set (n @ '']'')" using assms(4) by simp
  from replace_all_skip [OF this, of key r "p @ ''[''" post] np
  show ?thesis by (simp add: token_def)
qed

lemma token_prefix_split:
  assumes "is_name key" and "prefix (token key) (pre @ CHR ''['' # rest)" and "pre \<noteq> []"
  shows "\<exists>pre2. pre = token key @ pre2"
proof -
  from assms(2) have "prefix (token key) pre
      \<or> (\<exists>us. token key = pre @ us \<and> prefix us (CHR ''['' # rest))"
    by (simp add: prefix_append)
  then show ?thesis
  proof
    assume "prefix (token key) pre"
    then show ?thesis by (auto simp: prefix_def)
  next
    assume "\<exists>us. token key = pre @ us \<and> prefix us (CHR ''['' # rest)"
    then obtain us where us: "token key = pre @ us" "prefix us (CHR ''['' # rest)" by blast
    show ?thesis
    proof (cases us)
      case Nil
      with us(1) show ?thesis by simp
    next
      case (Cons u us')
      with us(2) have "u = CHR ''[''" by simp
      with us(1) Cons assms(3) have "CHR ''['' \<in> set (tl (token key))"
        by (cases pre) auto
      then have "CHR ''['' \<in> set key" by (simp add: token_def)
      with is_name_no_bracket [OF assms(1)] show ?thesis by simp
    qed
  qed
qed

lemma replace_all_persist:
  assumes "is_name key" and "\<not> is_name n" and "CHR '']'' \<notin> set n" and "CHR ''['' \<notin> set n"
  shows "t = pre @ token n @ post \<Longrightarrow> \<exists>pre' post'. replace_all key r p t = pre' @ token n @ post'"
  using assms(1)
proof (induction key r p t arbitrary: pre rule: replace_all.induct)
  case (1 key replacement preceding)
  then show ?case by (simp add: token_def)
next
  case (2 key replacement preceding c cs)
  note key = "2.prems"(2)
  show ?case
  proof (cases pre)
    case Nil
    with "2.prems"(1) have "c # cs = token n @ post" by simp
    then have "replace_all key replacement preceding (c # cs) =
        [] @ token n @ replace_all key replacement (preceding @ token n) post"
      using replace_all_keeps_token [OF key assms(2,3,4)] by simp
    then show ?thesis by blast
  next
    case (Cons a pre1)
    with "2.prems"(1) have cs: "a = c" "cs = pre1 @ token n @ post" by simp_all
    show ?thesis
    proof (cases "prefix (token key) (c # cs)")
      case True
      have "prefix (token key) (pre @ CHR ''['' # n @ CHR '']'' # post)"
        using True "2.prems"(1) by (simp add: token_def)
      from token_prefix_split [OF key this] Cons obtain pre2 where "pre = token key @ pre2"
        by auto
      then have d: "drop (length (token key)) (c # cs) = pre2 @ token n @ post"
        using "2.prems"(1) by simp
      from "2.IH"(1) [OF True d key] obtain pre' post' where
        "replace_all key replacement (preceding @ token key) (drop (length (token key)) (c # cs))
          = pre' @ token n @ post'" by blast
      then have "replace_all key replacement preceding (c # cs) =
          (get_substitution (token key) preceding (drop (length (token key)) (c # cs)) replacement
            @ pre') @ token n @ post'"
        using True by simp
      then show ?thesis by blast
    next
      case False
      from "2.IH"(2) [OF False cs(2) key] obtain pre' post' where
        "replace_all key replacement (preceding @ [c]) cs = pre' @ token n @ post'" by blast
      then have "replace_all key replacement preceding (c # cs) = (c # pre') @ token n @ post'"
        using False by simp
      then show ?thesis by blast
    qed
  qed
qed

lemma substitute_persist:
  assumes "\<not> is_name n" and "CHR '']'' \<notin> set n" and "CHR ''['' \<notin> set n"
  shows "\<forall>kv\<in>set vars. is_name (fst kv) \<Longrightarrow> t = pre @ token n @ post \<Longrightarrow>
     \<exists>pre' post'. substitute vars t = pre' @ token n @ post'"
proof (induction vars arbitrary: t pre post)
  case Nil
  then show ?case by (auto simp: substitute_def)
next
  case (Cons kv vars)
  obtain k v where kv: "kv = (k, v)" by (cases kv)
  with Cons.prems(1) have k: "is_name k" by simp
  from replace_all_persist [OF k assms Cons.prems(2)]
  obtain pre1 post1 where
    "replace_all k (if v = [] then token k else v) [] t = pre1 @ token n @ post1" by blast
  from Cons.IH [OF _ this] Cons.prems(1)
  obtain pre' post' where "substitute vars (replace_all k (if v = [] then token k else v) [] t)
      = pre' @ token n @ post'" by auto
  then show ?case by (auto simp: substitute_def kv)
qed

lemma dropWhile_persist:
  assumes "w \<noteq> []" and "\<not> P (hd w)"
  shows "\<exists>pre'. dropWhile P (pre @ w @ post) = pre' @ w @ post"
proof (cases "\<forall>x\<in>set pre. P x")
  case True
  obtain h w' where w: "w = h # w'" using assms(1) by (cases w) auto
  with assms(2) have "dropWhile P (pre @ w @ post) = [] @ w @ post"
    using True by (simp add: dropWhile_append2)
  then show ?thesis by blast
next
  case False
  then obtain x where "x \<in> set pre" "\<not> P x" by blast
  then have "dropWhile P (pre @ w @ post) = dropWhile P pre @ w @ post"
    by (rule dropWhile_append1)
  then show ?thesis by blast
qed

lemma trim_persist:
  assumes "w \<noteq> []" and "\<not> is_space (hd w)" and "\<not> is_space (last w)"
  shows "\<exists>pre' post'. trim (pre @ w @ post) = pre' @ w @ post'"
proof -
  from dropWhile_persist [of w is_space pre post, OF assms(1,2)] obtain pre' where
    d: "dropWhile is_space (pre @ w @ post) = pre' @ w @ post" by blast
  have "rev w \<noteq> []" "\<not> is_space (hd (rev w))"
    using assms(1,3) by (simp_all add: hd_rev)
  from dropWhile_persist [of "rev w" is_space "rev post" "rev pre'", OF this] obtain q where
    "dropWhile is_space (rev post @ rev w @ rev pre') = q @ rev w @ rev pre'" by blast
  then have "trim (pre @ w @ post) = pre' @ w @ rev q"
    by (simp add: trim_def d)
  then show ?thesis by blast
qed


lemma is_name_char_alphabet_aux:
  assumes "65 \<le> (of_char c :: nat)" "(of_char c :: nat) \<le> 90"
  shows "c \<in> set ''ABCDEFGHIJKLMNOPQRSTUVWXYZ''"
proof -
  define n where "n = (of_char c :: nat)"
  have "65 \<le> n" "n \<le> 90" using assms by (simp_all add: n_def)
  then have "n = 65 \<or> n = 66 \<or> n = 67 \<or> n = 68 \<or> n = 69 \<or> n = 70 \<or> n = 71 \<or> n = 72
      \<or> n = 73 \<or> n = 74 \<or> n = 75 \<or> n = 76 \<or> n = 77 \<or> n = 78 \<or> n = 79 \<or> n = 80
      \<or> n = 81 \<or> n = 82 \<or> n = 83 \<or> n = 84 \<or> n = 85 \<or> n = 86 \<or> n = 87 \<or> n = 88
      \<or> n = 89 \<or> n = 90"
    by arith
  then have "\<exists>d\<in>set ''ABCDEFGHIJKLMNOPQRSTUVWXYZ''. (of_char d :: nat) = n"
    by (elim disjE) simp_all
  then obtain d where d: "d \<in> set ''ABCDEFGHIJKLMNOPQRSTUVWXYZ''"
    and "(of_char c :: nat) = of_char d" unfolding n_def by metis
  then have "c = d" by (simp only: of_char_eq_iff)
  with d show ?thesis by (simp only:)
qed


lemma upper_case_letters:
  "65 \<le> (of_char c :: nat) \<and> (of_char c :: nat) \<le> 90
     \<longleftrightarrow> c \<in> set ''ABCDEFGHIJKLMNOPQRSTUVWXYZ''"
proof
  assume "65 \<le> (of_char c :: nat) \<and> (of_char c :: nat) \<le> 90"
  then show "c \<in> set ''ABCDEFGHIJKLMNOPQRSTUVWXYZ''"
    using is_name_char_alphabet_aux by blast
next
  assume "c \<in> set ''ABCDEFGHIJKLMNOPQRSTUVWXYZ''"
  then have "c = CHR ''A'' \<or> c = CHR ''B'' \<or> c = CHR ''C'' \<or> c = CHR ''D'' \<or> c = CHR ''E''
     \<or> c = CHR ''F'' \<or> c = CHR ''G'' \<or> c = CHR ''H'' \<or> c = CHR ''I'' \<or> c = CHR ''J''
     \<or> c = CHR ''K'' \<or> c = CHR ''L'' \<or> c = CHR ''M'' \<or> c = CHR ''N'' \<or> c = CHR ''O''
     \<or> c = CHR ''P'' \<or> c = CHR ''Q'' \<or> c = CHR ''R'' \<or> c = CHR ''S'' \<or> c = CHR ''T''
     \<or> c = CHR ''U'' \<or> c = CHR ''V'' \<or> c = CHR ''W'' \<or> c = CHR ''X'' \<or> c = CHR ''Y''
     \<or> c = CHR ''Z''"
    by (simp only: list.set insert_iff empty_iff simp_thms)
  then show "65 \<le> (of_char c :: nat) \<and> (of_char c :: nat) \<le> 90"
    by (elim disjE) simp_all
qed

lemma is_name_char_alphabet:
  "is_name_char c \<longleftrightarrow> c \<in> set ''ABCDEFGHIJKLMNOPQRSTUVWXYZ'' \<or> c = CHR ''_''"
  unfolding is_name_char_def upper_case_letters by (rule refl)

text \<open>
  Claim C4.  The names shown in the variable form are the pattern matches in the
  concatenated rendered text, each once, in the order of first appearance.  A name is
  matched exactly when it is a non-empty sequence of upper-case ASCII letters and
  underscores that occurs in the text enclosed in square brackets.  A bracketed token
  whose content is not such a name (a lower-case one such as \<open>[value]\<close>) is never
  detected, and, the keys of the variable mapping being names, it is still in the preview.
\<close>

theorem variable_detection:
  "map fst (variableForm (updatePreviewAndVariables s)) =
       first_occurrences (exec_all (rendered_text (components s)))
   \<and> (n \<in> set (exec_all t) \<longleftrightarrow> is_name n \<and> (\<exists>pre post. t = pre @ token n @ post))
   \<and> (is_name n \<longleftrightarrow>
        n \<noteq> [] \<and> (\<forall>c\<in>set n. c \<in> set ''ABCDEFGHIJKLMNOPQRSTUVWXYZ'' \<or> c = CHR ''_''))
   \<and> distinct (first_occurrences xs) \<and> set (first_occurrences xs) = set xs
   \<and> first_occurrences (xs @ [x]) =
        (if x \<in> set xs then first_occurrences xs else first_occurrences xs @ [x])
   \<and> (\<not> is_name n \<longrightarrow> n \<notin> set (map fst (variableForm (updatePreviewAndVariables s))))
   \<and> (\<not> is_name n \<and> CHR ''['' \<notin> set n \<and> CHR '']'' \<notin> set n
        \<and> (\<forall>kv\<in>set (variables s). is_name (fst kv))
        \<and> (\<exists>pre post. rendered_text (components s) = pre @ token n @ post) \<longrightarrow>
      (\<exists>pre post. livePreview (updatePreviewAndVariables s) = pre @ token n @ post))"
proof (intro conjI impI)
  show f: "map fst (variableForm (updatePreviewAndVariables s)) =
       first_occurrences (exec_all (rendered_text (components s)))"
    by (simp add: updatePreviewAndVariables_eq comp_def)
  show "n \<in> set (exec_all t) \<longleftrightarrow> is_name n \<and> (\<exists>pre post. t = pre @ token n @ post)"
    using exec_all_sound exec_all_complete by blast
  show "is_name n \<longleftrightarrow>
        n \<noteq> [] \<and> (\<forall>c\<in>set n. c \<in> set ''ABCDEFGHIJKLMNOPQRSTUVWXYZ'' \<or> c = CHR ''_'')"
    unfolding is_name_def list_all_iff is_name_char_alphabet by (rule refl)
  show "first_occurrences (xs @ [x]) =
        (if x \<in> set xs then first_occurrences xs else first_occurrences xs @ [x])"
    by (rule first_occurrences_snoc)
  show "n \<notin> set (map fst (variableForm (updatePreviewAndVariables s)))" if "\<not> is_name n"
  proof
    assume "n \<in> set (map fst (variableForm (updatePreviewAndVariables s)))"
    then have "n \<in> set (exec_all (rendered_text (components s)))"
      unfolding f by simp
    then have "is_name n" using exec_all_sound by blast
    with that show False by simp
  qed
  show "\<exists>pre post. livePreview (updatePreviewAndVariables s) = pre @ token n @ post"
    if a: "\<not> is_name n \<and> CHR ''['' \<notin> set n \<and> CHR '']'' \<notin> set n
        \<and> (\<forall>kv\<in>set (variables s). is_name (fst kv))
        \<and> (\<exists>pre post. rendered_text (components s) = pre @ token n @ post)"
  proof -
    from a obtain pre post where "rendered_text (components s) = pre @ token n @ post" by blast
    with a obtain pre1 post1 where
      "substitute (variables s) (rendered_text (components s)) = pre1 @ token n @ post1"
      using substitute_persist [of n "variables s" "rendered_text (components s)" pre post]
      by blast
    moreover have "token n \<noteq> []" "\<not> is_space (hd (token n))" "\<not> is_space (last (token n))"
      by (simp_all add: token_def is_space_def)
    ultimately obtain pre2 post2 where
      "trim (substitute (variables s) (rendered_text (components s))) = pre2 @ token n @ post2"
      using trim_persist [of "token n" pre1 post1] by auto
    then have "livePreview (updatePreviewAndVariables s) = pre2 @ token n @ post2"
      by (simp add: updatePreviewAndVariables_eq)
    then show ?thesis by blast
  qed
qed simp_all

theorem variable_detection_witness:
  "\<not> is_name ''value'' \<and> CHR ''['' \<notin> set ''value'' \<and> CHR '']'' \<notin> set ''value''
   \<and> list_all (\<lambda>kv. is_name (fst kv)) (variables topic_example)
   \<and> (\<exists>pre post. rendered_text (components topic_example) = pre @ token ''value'' @ post)
   \<and> ''value'' \<notin> set (map fst (variableForm (updatePreviewAndVariables topic_example)))
   \<and> (\<exists>pre post. livePreview (updatePreviewAndVariables topic_example) = pre @ token ''value'' @ post)"
proof -
  have h: "\<not> is_name ''value''" "CHR ''['' \<notin> set ''value''" "CHR '']'' \<notin> set ''value''"
    "\<forall>kv\<in>set (variables topic_example). is_name (fst kv)"
    by (simp_all add: is_name_def is_name_char_def topic_example_def initial_state_def)
  have "rendered_text (components topic_example) =
      ''# Topic: [TOPIC]\<newline>\<newline>'' @ token ''value'' @ '': [TOPIC] at [LEVEL_]\<newline>''"
    by (simp add: rendered_text_def topic_example_def initial_state_def componentText_def
        template_str_def token_def)
  then have r: "\<exists>pre post. rendered_text (components topic_example) = pre @ token ''value'' @ post"
    by blast
  note vd = variable_detection [of topic_example "''value''", THEN conjunct2, THEN conjunct2,
      THEN conjunct2, THEN conjunct2, THEN conjunct2, THEN conjunct2]
  from vd [THEN conjunct1] h(1)
  have c7: "''value'' \<notin> set (map fst (variableForm (updatePreviewAndVariables topic_example)))"
    by (rule mp)
  from h r have "\<not> is_name ''value'' \<and> CHR ''['' \<notin> set ''value'' \<and> CHR '']'' \<notin> set ''value''
        \<and> (\<forall>kv\<in>set (variables topic_example). is_name (fst kv))
        \<and> (\<exists>pre post. rendered_text (components topic_example) = pre @ token ''value'' @ post)"
    by (intro conjI)
  with vd [THEN conjunct2]
  have c8: "\<exists>pre post. livePreview (updatePreviewAndVariables topic_example) =
      pre @ token ''value'' @ post"
    by (rule mp)
  from h(4) have "list_all (\<lambda>kv. is_name (fst kv)) (variables topic_example)"
    by (simp only: list_all_iff)
  with h(1,2,3) r c7 c8 show ?thesis by (intro conjI)
qed

section \<open>Substitution\<close>

text \<open>
  For stored values without a dollar sign the substitution pass of the code is the
  substitution of the specification.
\<close>

lemma replace_all_literal:
  "CHR ''$'' \<notin> set v \<Longrightarrow> replace_all key v p t = replace_literal key v t"
proof (induction key v p t rule: replace_all.induct)
  case (1 key replacement preceding)
  show ?case by simp
next
  case (2 key replacement preceding c cs)
  show ?case
  proof (cases "prefix (token key) (c # cs)")
    case True
    from "2.IH"(1) [OF True "2.prems"] True "2.prems" show ?thesis
      by (simp add: get_substitution_plain)
  next
    case False
    from "2.IH"(2) [OF False "2.prems"] False show ?thesis by simp
  qed
qed

lemma substitute_without_dollar:
  "\<forall>kv\<in>set vars. is_name (fst kv) \<and> CHR ''$'' \<notin> set (snd kv) \<Longrightarrow>
   substitute vars t = substitute_spec vars t"
proof (induction vars arbitrary: t)
  case Nil
  show ?case by (simp add: substitute_def substitute_spec_def)
next
  case (Cons kv vars)
  obtain k v where kv: "kv = (k, v)" by (cases kv)
  with Cons.prems have k: "CHR ''$'' \<notin> set k" and v: "CHR ''$'' \<notin> set v"
    by (simp_all add: is_name_no_dollar)
  have step: "replace_all k (if v = [] then token k else v) [] t =
      (if v = [] then t else replace_literal k v t)"
    using k v by (simp add: replace_all_same replace_all_literal)
  have "substitute (kv # vars) t =
      substitute vars (replace_all k (if v = [] then token k else v) [] t)"
    by (simp add: substitute_def kv)
  also have "\<dots> = substitute_spec vars (if v = [] then t else replace_literal k v t)"
    unfolding step using Cons.prems by (intro Cons.IH) simp
  also have "\<dots> = substitute_spec (kv # vars) t"
    by (simp add: substitute_spec_def kv)
  finally show ?case .
qed

lemma substitution_examples:
  "substitute [(''FOO'', ''bar'')] ''[FOO] and [FOO]'' = ''bar and bar''"
  "substitute [(''FOO'', [])] ''[FOO] and [FOO]'' = ''[FOO] and [FOO]''"
  by (simp_all add: substitute_def token_def)

text \<open>
  Claim C3.  Every occurrence of the token of a name with a non-empty stored value is
  replaced by that value.  The code hands the stored value to \<open>String.prototype.replace\<close>
  as a replacement string, in which \<open>$$\<close>, \<open>$&\<close>, \<open>$`\<close> and \<open>$'\<close> are patterns: with the value
  \<open>$$x^2$$\<close> stored for \<open>FORMULA\<close> the preview of \<open>Explain [FORMULA]\<close> is \<open>Explain $x^2$\<close>,
  where the substitution of the specification gives \<open>Explain $$x^2$$\<close>.
\<close>

theorem substitution_expands_dollar_patterns:
  "livePreview (updatePreviewAndVariables formula_example) = ''Explain $x^2$''
   \<and> trim (substitute_spec (variables formula_example) (rendered_text (components formula_example)))
        = ''Explain $$x^2$$''"
  by (simp add: updatePreviewAndVariables_eq formula_example_def initial_state_def
      rendered_text_def componentText_def template_str_def substitute_def substitute_spec_def
      token_def trim_def is_space_def)

section \<open>Templates share nothing with the component list\<close>

lemma separatedD:
  assumes "separated hs"
  shows "components_ref hs < next_addr (store_of hs)"
    and "\<And>r. r \<in> set (arrays (store_of hs) (components_ref hs)) \<Longrightarrow> r < next_addr (store_of hs)"
    and "\<And>t. t \<in> set (templates_h hs) \<Longrightarrow> tr_components t < next_addr (store_of hs)"
    and "\<And>t. t \<in> set (templates_h hs) \<Longrightarrow> tr_components t \<noteq> components_ref hs"
    and "\<And>t r. t \<in> set (templates_h hs) \<Longrightarrow> r \<in> set (arrays (store_of hs) (tr_components t)) \<Longrightarrow>
           r < next_addr (store_of hs) \<and> r \<notin> set (arrays (store_of hs) (components_ref hs))"
  using assms by (auto simp: separated_def Let_def list_all_iff)

lemma frame_stored:
  assumes sep: "separated hs" and fr: "frame hs hs'" and t: "t \<in> set (templates_h hs)"
  shows "t \<in> set (templates_h hs')" and "stored hs' t = stored hs t"
    and "arrays (store_of hs') (tr_components t) = arrays (store_of hs) (tr_components t)"
proof -
  from fr obtain ts where "templates_h hs' = templates_h hs @ ts"
    by (auto simp: frame_def Let_def)
  with t show "t \<in> set (templates_h hs')" by simp
  have lt: "tr_components t < next_addr (store_of hs)" and ne: "tr_components t \<noteq> components_ref hs"
    using separatedD(3,4) [OF sep t] by simp_all
  with fr show arr: "arrays (store_of hs') (tr_components t) = arrays (store_of hs) (tr_components t)"
    by (simp add: frame_def Let_def)
  have "\<And>r. r \<in> set (arrays (store_of hs) (tr_components t)) \<Longrightarrow>
      objects (store_of hs') r = objects (store_of hs) r"
  proof -
    fix r assume "r \<in> set (arrays (store_of hs) (tr_components t))"
    from separatedD(5) [OF sep t this] fr show "objects (store_of hs') r = objects (store_of hs) r"
      by (simp add: frame_def Let_def)
  qed
  then show "stored hs' t = stored hs t"
    unfolding stored_def arr by (intro map_cong refl)
qed

lemma frame_separated:
  assumes sep: "separated hs" and fr: "frame hs hs'"
  shows "separated hs'"
proof -
  let ?st = "store_of hs" and ?st' = "store_of hs'"
  let ?n = "next_addr ?st" and ?n' = "next_addr ?st'"
  let ?a = "components_ref hs" and ?a' = "components_ref hs'"
  from fr have n: "?n \<le> ?n'" and a': "?a' < ?n'" "?a' = ?a \<or> ?n \<le> ?a'"
    and lv: "\<And>r. r \<in> set (arrays ?st' ?a') \<Longrightarrow> r < ?n' \<and> (r \<in> set (arrays ?st ?a) \<or> ?n \<le> r)"
    by (auto simp: frame_def Let_def)
  from fr obtain ts where ts: "templates_h hs' = templates_h hs @ ts"
    and new: "\<And>t. t \<in> set ts \<Longrightarrow> ?n \<le> tr_components t \<and> tr_components t < ?n'
        \<and> tr_components t \<noteq> ?a'
        \<and> (\<forall>r\<in>set (arrays ?st' (tr_components t)). ?n \<le> r \<and> r < ?n' \<and> r \<notin> set (arrays ?st' ?a'))"
    by (auto simp: frame_def Let_def)
  have old: "tr_components t < ?n' \<and> tr_components t \<noteq> ?a'
      \<and> (\<forall>r\<in>set (arrays ?st' (tr_components t)). r < ?n' \<and> r \<notin> set (arrays ?st' ?a'))"
    if t: "t \<in> set (templates_h hs)" for t
  proof (intro conjI ballI)
    have lt: "tr_components t < ?n" and ne: "tr_components t \<noteq> ?a"
      using separatedD(3,4) [OF sep t] by simp_all
    from lt n show "tr_components t < ?n'" by simp
    from lt ne a'(2) show "tr_components t \<noteq> ?a'" by auto
    fix r assume "r \<in> set (arrays ?st' (tr_components t))"
    then have r: "r \<in> set (arrays ?st (tr_components t))"
      using frame_stored(3) [OF sep fr t] by simp
    from separatedD(5) [OF sep t r] have r1: "r < ?n" "r \<notin> set (arrays ?st ?a)" by simp_all
    from r1(1) n show "r < ?n'" by simp
    show "r \<notin> set (arrays ?st' ?a')"
    proof
      assume "r \<in> set (arrays ?st' ?a')"
      from lv [OF this] r1 show False by auto
    qed
  qed
  have "\<forall>t\<in>set (templates_h hs'). tr_components t < ?n' \<and> tr_components t \<noteq> ?a'
      \<and> (\<forall>r\<in>set (arrays ?st' (tr_components t)). r < ?n' \<and> r \<notin> set (arrays ?st' ?a'))"
    unfolding ts using old new by auto
  with a'(1) lv show ?thesis
    by (simp add: separated_def Let_def list_all_iff)
qed

lemma json_copy_objects_props:
  "json_copy_objects cs st = (refs, st') \<Longrightarrow>
     next_addr st \<le> next_addr st' \<and> arrays st' = arrays st
     \<and> (\<forall>r. r < next_addr st \<longrightarrow> objects st' r = objects st r)
     \<and> (\<forall>r\<in>set refs. next_addr st \<le> r \<and> r < next_addr st')
     \<and> map (objects st') refs = cs"
proof (induction cs arbitrary: st refs st')
  case Nil
  then show ?case by simp
next
  case (Cons c cs)
  let ?st1 = "st\<lparr>objects := (objects st)(next_addr st := c), next_addr := Suc (next_addr st)\<rparr>"
  obtain rs st2 where rec: "json_copy_objects cs ?st1 = (rs, st2)"
    by (cases "json_copy_objects cs ?st1")
  with Cons.prems have refs: "refs = next_addr st # rs" and st': "st' = st2"
    by (simp_all add: new_object_def)
  from Cons.IH [OF rec] have ih: "Suc (next_addr st) \<le> next_addr st2" "arrays st2 = arrays st"
    "\<And>r. r < Suc (next_addr st) \<Longrightarrow> objects st2 r = objects ?st1 r"
    "\<And>r. r \<in> set rs \<Longrightarrow> Suc (next_addr st) \<le> r \<and> r < next_addr st2"
    "map (objects st2) rs = cs"
    by simp_all
  have "objects st2 (next_addr st) = c" using ih(3) [of "next_addr st"] by simp
  moreover have "\<And>r. r < next_addr st \<Longrightarrow> objects st2 r = objects st r"
    using ih(3) by simp
  moreover have "\<And>r. r \<in> set refs \<Longrightarrow> next_addr st \<le> r \<and> r < next_addr st2"
    unfolding refs using ih(1,4) by fastforce
  ultimately show ?case
    unfolding st' using ih(1,2,5) by (simp add: refs)
qed

lemma json_copy_props:
  assumes "json_copy arr st = (a, st')"
  shows "next_addr st \<le> a" and "a < next_addr st'"
    and "\<And>x. x \<noteq> a \<Longrightarrow> arrays st' x = arrays st x"
    and "\<And>r. r < next_addr st \<Longrightarrow> objects st' r = objects st r"
    and "\<And>r. r \<in> set (arrays st' a) \<Longrightarrow> next_addr st \<le> r \<and> r < next_addr st'"
    and "map (objects st') (arrays st' a) = map (objects st) (arrays st arr)"
proof -
  obtain refs st1 where c: "json_copy_objects (map (objects st) (arrays st arr)) st = (refs, st1)"
    by (cases "json_copy_objects (map (objects st) (arrays st arr)) st")
  from json_copy_objects_props [OF c]
  have p: "next_addr st \<le> next_addr st1" "arrays st1 = arrays st"
    "\<And>r. r < next_addr st \<Longrightarrow> objects st1 r = objects st r"
    "\<And>r. r \<in> set refs \<Longrightarrow> next_addr st \<le> r \<and> r < next_addr st1"
    "map (objects st1) refs = map (objects st) (arrays st arr)"
    by simp_all
  from assms c have a: "a = next_addr st1"
    and st': "st' = st1\<lparr>arrays := (arrays st1)(next_addr st1 := refs), next_addr := Suc (next_addr st1)\<rparr>"
    by (auto simp: json_copy_def new_array_def)
  show "next_addr st \<le> a" using p(1) a by simp
  show "a < next_addr st'" by (simp add: a st')
  show "\<And>x. x \<noteq> a \<Longrightarrow> arrays st' x = arrays st x" by (simp add: a st' p(2))
  show "\<And>r. r < next_addr st \<Longrightarrow> objects st' r = objects st r" by (simp add: st' p(3))
  show "\<And>r. r \<in> set (arrays st' a) \<Longrightarrow> next_addr st \<le> r \<and> r < next_addr st'"
    using p(4) by (fastforce simp: a st')
  show "map (objects st') (arrays st' a) = map (objects st) (arrays st arr)"
    using p(5) by (simp add: a st')
qed

lemma frame_dragged [simp]:
  "frame (hs\<lparr>draggedElement_h := d\<rparr>) hs' = frame hs hs'"
  "frame hs (hs'\<lparr>draggedElement_h := d\<rparr>) = frame hs hs'"
  by (simp_all add: frame_def)

lemma separated_dragged [simp]: "separated (hs\<lparr>draggedElement_h := d\<rparr>) = separated hs"
  by (simp add: separated_def)

lemma frameI:
  assumes "store_of hs' = st'" and "components_ref hs' = a'"
    and "templates_h hs' = templates_h hs @ ts"
    and "next_addr (store_of hs) \<le> next_addr st'"
    and "\<And>x. x < next_addr (store_of hs) \<Longrightarrow> x \<noteq> components_ref hs \<Longrightarrow>
          arrays st' x = arrays (store_of hs) x"
    and "\<And>r. r < next_addr (store_of hs) \<Longrightarrow> r \<notin> set (arrays (store_of hs) (components_ref hs)) \<Longrightarrow>
          objects st' r = objects (store_of hs) r"
    and "a' < next_addr st'" and "a' = components_ref hs \<or> next_addr (store_of hs) \<le> a'"
    and "\<And>r. r \<in> set (arrays st' a') \<Longrightarrow>
          r < next_addr st' \<and> (r \<in> set (arrays (store_of hs) (components_ref hs))
                                \<or> next_addr (store_of hs) \<le> r)"
    and "\<And>t. t \<in> set ts \<Longrightarrow> next_addr (store_of hs) \<le> tr_components t
          \<and> tr_components t < next_addr st' \<and> tr_components t \<noteq> a'"
    and "\<And>t r. t \<in> set ts \<Longrightarrow> r \<in> set (arrays st' (tr_components t)) \<Longrightarrow>
          next_addr (store_of hs) \<le> r \<and> r < next_addr st' \<and> r \<notin> set (arrays st' a')"
  shows "frame hs hs'"
  unfolding frame_def Let_def assms(1,2)
proof (intro conjI allI impI ballI)
  show "\<exists>ts. templates_h hs' = templates_h hs @ ts
      \<and> (\<forall>t\<in>set ts. next_addr (store_of hs) \<le> tr_components t
            \<and> tr_components t < next_addr st' \<and> tr_components t \<noteq> a'
            \<and> (\<forall>r\<in>set (arrays st' (tr_components t)).
                  next_addr (store_of hs) \<le> r \<and> r < next_addr st' \<and> r \<notin> set (arrays st' a')))"
    using assms(3,10,11) by (intro exI [of _ ts]) blast
qed (use assms(4-9) in \<open>blast+\<close>)

lemma frame_refl: "separated hs \<Longrightarrow> frame hs hs"
  using separatedD(1,2) [of hs]
  by (intro frameI [where ts = "[]"]) auto

lemma frame_input_handler_h:
  assumes "separated hs"
  shows "frame hs (input_handler_h componentId property v hs)"
proof (cases "find (\<lambda>r. c_id (objects (store_of hs) r) = componentId)
    (arrays (store_of hs) (components_ref hs))")
  case None
  then show ?thesis using frame_refl [OF assms] by (simp add: input_handler_h_def)
next
  case (Some r)
  then have r: "r \<in> set (arrays (store_of hs) (components_ref hs))"
    by (auto simp: find_Some_iff)
  show ?thesis
  proof (cases "property = ''content'' \<or> property = ''key'' \<or> property = ''value''")
    case False
    then show ?thesis using frame_refl [OF assms] Some by (simp add: input_handler_h_def)
  next
    case True
    let ?st' = "(store_of hs)\<lparr>objects := (objects (store_of hs))
              (r := set_property property v (objects (store_of hs) r))\<rparr>"
    have eq: "input_handler_h componentId property v hs = hs\<lparr>store_of := ?st'\<rparr>"
      using True Some by (simp add: input_handler_h_def Let_def)
    show ?thesis
      unfolding eq
      using separatedD(1,2) [OF assms] r
      by (intro frameI [where ts = "[]" and st' = ?st' and a' = "components_ref hs"]) auto
  qed
qed

lemma frame_delete_component_h:
  assumes "separated hs"
  shows "frame hs (delete_component_h componentId hs)"
proof -
  let ?n = "next_addr (store_of hs)"
  let ?refs = "filter (\<lambda>r. c_id (objects (store_of hs) r) \<noteq> componentId)
      (arrays (store_of hs) (components_ref hs))"
  let ?st' = "(store_of hs)\<lparr>arrays := (arrays (store_of hs))(?n := ?refs), next_addr := Suc ?n\<rparr>"
  have eq: "delete_component_h componentId hs = hs\<lparr>store_of := ?st', components_ref := ?n\<rparr>"
    by (simp add: delete_component_h_def new_array_def Let_def)
  have "\<And>r. r \<in> set (arrays (store_of hs) (components_ref hs)) \<Longrightarrow> r < Suc ?n"
    using separatedD(2) [OF assms] by (auto intro: less_SucI)
  then show ?thesis
    unfolding eq
    by (intro frameI [where ts = "[]" and st' = ?st' and a' = ?n]) auto
qed

lemma frame_saveTemplateForm_submit_h:
  assumes "separated hs"
  shows "frame hs (saveTemplateForm_submit_h templateName now hs)"
proof (cases "trim templateName = []")
  case True
  then show ?thesis using frame_refl [OF assms] by (simp add: saveTemplateForm_submit_h_def)
next
  case False
  obtain a st1 where c: "json_copy (components_ref hs) (store_of hs) = (a, st1)"
    by (cases "json_copy (components_ref hs) (store_of hs)")
  note p = json_copy_props [OF c]
  let ?t = "\<lparr>tr_id = now, tr_name = trim templateName, tr_components = a\<rparr>"
  have eq: "saveTemplateForm_submit_h templateName now hs =
      hs\<lparr>store_of := st1, templates_h := templates_h hs @ [?t]\<rparr>"
    using False c by (simp add: saveTemplateForm_submit_h_def Let_def)
  have lt: "components_ref hs < next_addr (store_of hs)" by (rule separatedD(1) [OF assms])
  then have ne: "components_ref hs \<noteq> a" using p(1) by simp
  have arr: "arrays st1 (components_ref hs) = arrays (store_of hs) (components_ref hs)"
    using p(3) [OF ne] .
  have lv: "\<And>r. r \<in> set (arrays (store_of hs) (components_ref hs)) \<Longrightarrow> r < next_addr (store_of hs)"
    by (rule separatedD(2) [OF assms])
  have n: "next_addr (store_of hs) \<le> next_addr st1" using p(1,2) by simp
  show ?thesis
    unfolding eq
  proof (rule frameI [where ts = "[?t]" and st' = st1 and a' = "components_ref hs"])
    show "\<And>x. x < next_addr (store_of hs) \<Longrightarrow> x \<noteq> components_ref hs \<Longrightarrow>
          arrays st1 x = arrays (store_of hs) x"
      using p(1) by (intro p(3)) simp
    show "\<And>r. r < next_addr (store_of hs) \<Longrightarrow>
          r \<notin> set (arrays (store_of hs) (components_ref hs)) \<Longrightarrow>
          objects st1 r = objects (store_of hs) r"
      by (rule p(4))
    show "components_ref hs < next_addr st1" using lt n by simp
    show "\<And>r. r \<in> set (arrays st1 (components_ref hs)) \<Longrightarrow>
          r < next_addr st1 \<and> (r \<in> set (arrays (store_of hs) (components_ref hs))
                                \<or> next_addr (store_of hs) \<le> r)"
      unfolding arr using lv n by fastforce
    show "\<And>t. t \<in> set [?t] \<Longrightarrow> next_addr (store_of hs) \<le> tr_components t
          \<and> tr_components t < next_addr st1 \<and> tr_components t \<noteq> components_ref hs"
      using p(1,2) ne by auto
    show "\<And>t r. t \<in> set [?t] \<Longrightarrow> r \<in> set (arrays st1 (tr_components t)) \<Longrightarrow>
          next_addr (store_of hs) \<le> r \<and> r < next_addr st1
          \<and> r \<notin> set (arrays st1 (components_ref hs))"
    proof -
      fix t r assume "t \<in> set [?t]" "r \<in> set (arrays st1 (tr_components t))"
      then have "r \<in> set (arrays st1 a)" by simp
      from p(5) [OF this] have b: "next_addr (store_of hs) \<le> r" "r < next_addr st1" by simp_all
      have "r \<notin> set (arrays (store_of hs) (components_ref hs))"
        using lv [of r] b(1) by auto
      with b show "next_addr (store_of hs) \<le> r \<and> r < next_addr st1
          \<and> r \<notin> set (arrays st1 (components_ref hs))"
        unfolding arr by simp
    qed
  qed (use n in simp_all)
qed

lemma frame_load_template_h:
  assumes "separated hs"
  shows "frame hs (load_template_h templateId hs)"
proof (cases "find (\<lambda>t. tr_id t = templateId) (templates_h hs)")
  case None
  then show ?thesis using frame_refl [OF assms] by (simp add: load_template_h_def)
next
  case (Some t)
  obtain a st1 where c: "json_copy (tr_components t) (store_of hs) = (a, st1)"
    by (cases "json_copy (tr_components t) (store_of hs)")
  note p = json_copy_props [OF c]
  have eq: "load_template_h templateId hs = hs\<lparr>store_of := st1, components_ref := a\<rparr>"
    using Some c by (simp add: load_template_h_def)
  have n: "next_addr (store_of hs) \<le> next_addr st1" using p(1,2) by simp
  show ?thesis
    unfolding eq
  proof (rule frameI [where ts = "[]" and st' = st1 and a' = a])
    show "\<And>x. x < next_addr (store_of hs) \<Longrightarrow> x \<noteq> components_ref hs \<Longrightarrow>
          arrays st1 x = arrays (store_of hs) x"
      using p(1) by (intro p(3)) simp
    show "\<And>r. r < next_addr (store_of hs) \<Longrightarrow>
          r \<notin> set (arrays (store_of hs) (components_ref hs)) \<Longrightarrow>
          objects st1 r = objects (store_of hs) r"
      by (rule p(4))
    show "\<And>r. r \<in> set (arrays st1 a) \<Longrightarrow>
          r < next_addr st1 \<and> (r \<in> set (arrays (store_of hs) (components_ref hs))
                                \<or> next_addr (store_of hs) \<le> r)"
      using p(5) by blast
  qed (use n p(1,2) in simp_all)
qed

lemma frame_drop_handler_h:
  assumes sep: "separated hs" and r: "drop_handler_h placeholder componentType now hs = Inr hs'"
  shows "frame hs hs'"
proof (cases "draggedElement_h hs")
  case (Some fromIndex)
  let ?arr = "arrays (store_of hs) (components_ref hs)"
  let ?to = "normalize_toIndex fromIndex (case placeholder of Some p \<Rightarrow> p | None \<Rightarrow> length ?arr)"
  show ?thesis
  proof (cases "fromIndex \<noteq> ?to")
    case False
    with r Some have "hs' = hs\<lparr>draggedElement_h := None\<rparr>"
      by (simp add: drop_handler_h_def Let_def)
    then show ?thesis using frame_refl [OF sep] by simp
  next
    case True
    with r Some have lt: "fromIndex < length ?arr"
      by (auto simp: drop_handler_h_def Let_def splice_remove_def split: if_splits)
    let ?new = "splice_insert ?to (?arr ! fromIndex) (take fromIndex ?arr @ drop (Suc fromIndex) ?arr)"
    let ?st' = "(store_of hs)\<lparr>arrays := (arrays (store_of hs))(components_ref hs := ?new)\<rparr>"
    from r Some True lt have eq: "hs' = hs\<lparr>store_of := ?st', draggedElement_h := None\<rparr>"
      by (simp add: drop_handler_h_def Let_def splice_remove_def)
    have sub: "set ?new \<subseteq> set ?arr"
      using lt by (auto simp: set_splice_insert dest: in_set_takeD in_set_dropD)
    show ?thesis
      unfolding eq frame_dragged
      using separatedD(1,2) [OF sep] sub
      by (intro frameI [where ts = "[]" and st' = ?st' and a' = "components_ref hs"]) auto
  qed
next
  case None
  show ?thesis
  proof (cases "componentType = []")
    case True
    with r None have "hs' = hs\<lparr>draggedElement_h := None\<rparr>"
      by (simp add: drop_handler_h_def Let_def)
    then show ?thesis using frame_refl [OF sep] by simp
  next
    case False
    let ?n = "next_addr (store_of hs)"
    let ?arr = "arrays (store_of hs) (components_ref hs)"
    let ?i = "case placeholder of Some p \<Rightarrow> p | None \<Rightarrow> length ?arr"
    let ?st' = "(store_of hs)\<lparr>objects := (objects (store_of hs))
          (?n := createNewComponent componentType now), next_addr := Suc ?n,
        arrays := (arrays (store_of hs))(components_ref hs := splice_insert ?i ?n ?arr)\<rparr>"
    from r None False have eq: "hs' = hs\<lparr>store_of := ?st', draggedElement_h := None\<rparr>"
      by (simp add: drop_handler_h_def Let_def new_object_def)
    have lv: "\<And>r. r \<in> set ?arr \<Longrightarrow> r < Suc ?n"
      using separatedD(2) [OF sep] by (auto intro: less_SucI)
    show ?thesis
      unfolding eq frame_dragged
      using separatedD(1) [OF sep] lv
      by (intro frameI [where ts = "[]" and st' = ?st' and a' = "components_ref hs"])
        (auto simp: set_splice_insert)
  qed
qed

lemma frame_gesture_h:
  assumes "separated hs" and "gesture_h g hs = Inr hs'"
  shows "frame hs hs'"
proof (cases g)
  case (Move fromIndex placeholder)
  with assms(2) have "drop_handler_h (Some placeholder) [] 0
      (hs\<lparr>draggedElement_h := Some fromIndex\<rparr>) = Inr hs'" by simp
  from frame_drop_handler_h [OF _ this] assms(1) show ?thesis by simp
next
  case (Insert placeholder componentType now)
  with assms(2) have "drop_handler_h (Some placeholder) componentType now hs = Inr hs'" by simp
  from frame_drop_handler_h [OF assms(1) this] show ?thesis .
next
  case (Edit componentId property v)
  with assms(2) frame_input_handler_h [OF assms(1)] show ?thesis by auto
next
  case (Delete componentId)
  with assms(2) frame_delete_component_h [OF assms(1)] show ?thesis by auto
next
  case (Save templateName now)
  with assms(2) frame_saveTemplateForm_submit_h [OF assms(1)] show ?thesis by auto
next
  case (Load templateId)
  with assms(2) frame_load_template_h [OF assms(1)] show ?thesis by auto
qed

lemma run_h_separated:
  "separated hs \<Longrightarrow> run_h gs hs = Inr hs' \<Longrightarrow>
   separated hs' \<and> (\<forall>t\<in>set (templates_h hs). t \<in> set (templates_h hs') \<and> stored hs' t = stored hs t)"
proof (induction gs arbitrary: hs)
  case Nil
  then show ?case by simp
next
  case (Cons g gs)
  from Cons.prems(2) obtain hs1 where g: "gesture_h g hs = Inr hs1" and rest: "run_h gs hs1 = Inr hs'"
    by (auto split: sum.splits)
  note fr = frame_gesture_h [OF Cons.prems(1) g]
  have sep1: "separated hs1" by (rule frame_separated [OF Cons.prems(1) fr])
  from Cons.IH [OF sep1 rest] have ih: "separated hs'"
    "\<And>t. t \<in> set (templates_h hs1) \<Longrightarrow> t \<in> set (templates_h hs') \<and> stored hs' t = stored hs1 t"
    by simp_all
  have "t \<in> set (templates_h hs') \<and> stored hs' t = stored hs t" if t: "t \<in> set (templates_h hs)" for t
    using frame_stored(1,2) [OF Cons.prems(1) fr t] ih(2) [of t] by simp
  with ih(1) show ?case by blast
qed

lemma separated_initial: "separated initial_heap_state"
  by (simp add: separated_def initial_heap_state_def)

lemma run_h_append:
  "run_h (xs @ ys) hs = (case run_h xs hs of Inl e \<Rightarrow> Inl e | Inr hs' \<Rightarrow> run_h ys hs')"
  by (induction xs arbitrary: hs) (simp_all split: sum.splits)

lemma save_copies_live:
  assumes sep: "separated hs" and n: "trim templateName \<noteq> []"
  shows "\<exists>t. templates_h (saveTemplateForm_submit_h templateName now hs) = templates_h hs @ [t]
     \<and> tr_id t = now \<and> tr_name t = trim templateName
     \<and> stored (saveTemplateForm_submit_h templateName now hs) t = live hs
     \<and> live (saveTemplateForm_submit_h templateName now hs) = live hs"
proof -
  obtain a st1 where c: "json_copy (components_ref hs) (store_of hs) = (a, st1)"
    by (cases "json_copy (components_ref hs) (store_of hs)")
  note p = json_copy_props [OF c]
  let ?t = "\<lparr>tr_id = now, tr_name = trim templateName, tr_components = a\<rparr>"
  have eq: "saveTemplateForm_submit_h templateName now hs =
      hs\<lparr>store_of := st1, templates_h := templates_h hs @ [?t]\<rparr>"
    using n c by (simp add: saveTemplateForm_submit_h_def Let_def)
  have ne: "components_ref hs \<noteq> a" using separatedD(1) [OF sep] p(1) by simp
  have arr: "arrays st1 (components_ref hs) = arrays (store_of hs) (components_ref hs)"
    using p(3) [OF ne] .
  have "map (objects st1) (arrays (store_of hs) (components_ref hs)) =
      map (objects (store_of hs)) (arrays (store_of hs) (components_ref hs))"
    using separatedD(2) [OF sep] p(4) by (intro map_cong refl) blast
  then have l: "live (hs\<lparr>store_of := st1, templates_h := templates_h hs @ [?t]\<rparr>) = live hs"
    by (simp add: live_def arr)
  have s: "stored (hs\<lparr>store_of := st1, templates_h := templates_h hs @ [?t]\<rparr>) ?t = live hs"
    using p(6) by (simp add: stored_def live_def)
  show ?thesis unfolding eq using l s by (intro exI [of _ ?t]) simp
qed

lemma load_copies_stored:
  assumes "find (\<lambda>t. tr_id t = templateId) (templates_h hs) = Some t"
  shows "live (load_template_h templateId hs) = stored hs t"
proof -
  obtain a st1 where c: "json_copy (tr_components t) (store_of hs) = (a, st1)"
    by (cases "json_copy (tr_components t) (store_of hs)")
  from json_copy_props(6) [OF c] assms c show ?thesis
    by (simp add: load_template_h_def live_def stored_def)
qed

lemma gestures_example_eval:
  "(case run_h gestures_example initial_heap_state of
      Inl e \<Rightarrow> False
    | Inr hs \<Rightarrow> map tr_id (templates_h hs) = [7]
         \<and> (case run_h edits_example hs of Inl e \<Rightarrow> False
             | Inr hs' \<Rightarrow> map c_id (live hs') = [8, 6] \<and> map c_id (live hs) = [5, 6]))"
  by code_simp

text \<open>
  Claim C6.  In every state \<open>hs\<close> reached from the initial state by gestures: saving
  appends a template whose components equal the live list and leaves the live list as it
  is; loading makes the live list equal to the stored components of the template; and
  whatever gestures follow (inserts, moves, removes, field updates, further saves and
  loads), every template of \<open>hs\<close> is still in the store with the same components.  So no
  edit of the live list reaches a saved template, before or after loading it.
\<close>

theorem deep_copy_isolation:
  assumes "run_h before initial_heap_state = Inr hs"
  shows "(trim templateName \<noteq> [] \<longrightarrow>
          (\<exists>t. templates_h (saveTemplateForm_submit_h templateName now hs) = templates_h hs @ [t]
             \<and> stored (saveTemplateForm_submit_h templateName now hs) t = live hs
             \<and> live (saveTemplateForm_submit_h templateName now hs) = live hs))
     \<and> (\<forall>t. find (\<lambda>t. tr_id t = templateId) (templates_h hs) = Some t \<longrightarrow>
          live (load_template_h templateId hs) = stored hs t)
     \<and> (\<forall>hs' t. run_h after hs = Inr hs' \<and> t \<in> set (templates_h hs) \<longrightarrow>
          t \<in> set (templates_h hs') \<and> stored hs' t = stored hs t)"
proof -
  have sep: "separated hs"
    using run_h_separated [OF separated_initial assms] by simp
  show ?thesis
  proof (intro conjI allI impI)
    assume "trim templateName \<noteq> []"
    from save_copies_live [OF sep this, of now]
    show "\<exists>t. templates_h (saveTemplateForm_submit_h templateName now hs) = templates_h hs @ [t]
             \<and> stored (saveTemplateForm_submit_h templateName now hs) t = live hs
             \<and> live (saveTemplateForm_submit_h templateName now hs) = live hs"
      by blast
  next
    fix t assume "find (\<lambda>t. tr_id t = templateId) (templates_h hs) = Some t"
    then show "live (load_template_h templateId hs) = stored hs t"
      by (rule load_copies_stored)
  next
    fix hs' t assume a: "run_h after hs = Inr hs' \<and> t \<in> set (templates_h hs)"
    with run_h_separated [OF sep, of after hs'] show "t \<in> set (templates_h hs')" by blast
    from a run_h_separated [OF sep, of after hs'] show "stored hs' t = stored hs t" by blast
  qed
qed

theorem deep_copy_isolation_witness:
  "\<exists>hs hs' t. run_h gestures_example initial_heap_state = Inr hs
     \<and> run_h edits_example hs = Inr hs'
     \<and> trim ''Again'' \<noteq> []
     \<and> stored (saveTemplateForm_submit_h ''Again'' 9 hs)
          (last (templates_h (saveTemplateForm_submit_h ''Again'' 9 hs))) = live hs
     \<and> find (\<lambda>t. tr_id t = 7) (templates_h hs) = Some t
     \<and> live (load_template_h 7 hs) = stored hs t
     \<and> t \<in> set (templates_h hs) \<and> t \<in> set (templates_h hs')
     \<and> stored hs' t = stored hs t"
proof -
  from gestures_example_eval obtain hs where hs: "run_h gestures_example initial_heap_state = Inr hs"
    and ids: "map tr_id (templates_h hs) = [7]"
    and e: "case run_h edits_example hs of Inl e \<Rightarrow> False | Inr hs' \<Rightarrow> True"
    by (auto split: sum.splits)
  from e obtain hs' where hs': "run_h edits_example hs = Inr hs'"
    by (auto split: sum.splits)
  from ids obtain t where t: "templates_h hs = [t]" "tr_id t = 7"
    by (cases "templates_h hs") auto
  then have f: "find (\<lambda>t. tr_id t = 7) (templates_h hs) = Some t" and m: "t \<in> set (templates_h hs)"
    by simp_all
  have n: "trim ''Again'' \<noteq> []" by (simp add: trim_def is_space_def)
  note th = deep_copy_isolation [OF hs, of "''Again''" 9 7 edits_example]
  from th n have "\<exists>t. templates_h (saveTemplateForm_submit_h ''Again'' 9 hs) = templates_h hs @ [t]
             \<and> stored (saveTemplateForm_submit_h ''Again'' 9 hs) t = live hs
             \<and> live (saveTemplateForm_submit_h ''Again'' 9 hs) = live hs"
    by blast
  then have c1: "stored (saveTemplateForm_submit_h ''Again'' 9 hs)
          (last (templates_h (saveTemplateForm_submit_h ''Again'' 9 hs))) = live hs"
    by auto
  from th f have c2: "live (load_template_h 7 hs) = stored hs t" by blast
  from th hs' m have c3: "t \<in> set (templates_h hs') \<and> stored hs' t = stored hs t" by blast
  from hs hs' n c1 f c2 m c3 show ?thesis by blast
qed

section \<open>The store model and the value model agree\<close>

text \<open>
  Every gesture takes states related by \<open>denotes\<close> to related states, and fails in one model
  exactly when it fails in the other.  So the component lists and the templates that the
  store model reaches are those of the handlers on values.
\<close>

lemma find_map_eq: "find P (map f xs) = map_option f (find (\<lambda>x. P (f x)) xs)"
  by (induction xs) simp_all

lemma map_upd_first:
  "distinct refs \<Longrightarrow> find (\<lambda>r. P (f r)) refs = Some r \<Longrightarrow>
   map (f(r := g (f r))) refs = update_first P g (map f refs)"
proof (induction refs)
  case Nil
  then show ?case by simp
next
  case (Cons x refs)
  show ?case
  proof (cases "P (f x)")
    case True
    with Cons.prems have "r = x" "x \<notin> set refs" by simp_all
    then have "map (f(r := g (f r))) refs = map f refs"
      by (intro map_cong refl) auto
    with True \<open>r = x\<close> show ?thesis by simp
  next
    case False
    with Cons.prems have f: "find (\<lambda>r. P (f r)) refs = Some r" and d: "distinct refs" by simp_all
    from f have "P (f r)" by (auto simp: find_Some_iff)
    with False have "x \<noteq> r" by auto
    with False Cons.IH [OF d f] show ?thesis by simp
  qed
qed

lemma distinct_move:
  assumes "distinct xs" and "i < length xs"
  shows "distinct (splice_insert k (xs ! i) (take i xs @ drop (Suc i) xs))"
proof -
  have "xs = take i xs @ xs ! i # drop (Suc i) xs" using assms(2) by (rule id_take_nth_drop)
  with assms(1) have "distinct (take i xs @ xs ! i # drop (Suc i) xs)" by simp
  then have "distinct (take i xs @ drop (Suc i) xs)"
    and "xs ! i \<notin> set (take i xs @ drop (Suc i) xs)"
    by auto
  then show ?thesis by (rule distinct_splice_insert)
qed

lemma json_copy_objects_distinct:
  "json_copy_objects cs st = (refs, st') \<Longrightarrow> distinct refs"
proof (induction cs arbitrary: st refs st')
  case Nil
  then show ?case by simp
next
  case (Cons c cs)
  let ?st1 = "st\<lparr>objects := (objects st)(next_addr st := c), next_addr := Suc (next_addr st)\<rparr>"
  obtain rs st2 where rec: "json_copy_objects cs ?st1 = (rs, st2)"
    by (cases "json_copy_objects cs ?st1")
  with Cons.prems have refs: "refs = next_addr st # rs"
    by (simp_all add: new_object_def)
  from json_copy_objects_props [OF rec] have "\<forall>r\<in>set rs. Suc (next_addr st) \<le> r" by simp
  then have "next_addr st \<notin> set rs" by auto
  with Cons.IH [OF rec] show ?case by (simp add: refs)
qed

lemma json_copy_distinct:
  assumes "json_copy arr st = (a, st')"
  shows "distinct (arrays st' a)"
proof -
  obtain refs st1 where c: "json_copy_objects (map (objects st) (arrays st arr)) st = (refs, st1)"
    by (cases "json_copy_objects (map (objects st) (arrays st arr)) st")
  from assms c have "arrays st' a = refs"
    by (auto simp: json_copy_def new_array_def)
  with json_copy_objects_distinct [OF c] show ?thesis by simp
qed


lemma templates_foldl_step [simp]:
  "templates (foldl renderVariableInputs_step s ns) = templates s"
  by (induction ns arbitrary: s) (simp_all add: renderVariableInputs_step_def Let_def)

lemma templates_updatePreviewAndVariables [simp]:
  "templates (updatePreviewAndVariables s) = templates s"
  by (simp add: updatePreviewAndVariables_def renderVariableInputs_def Let_def split: prod.split)

lemma templates_render [simp]: "templates (render s) = templates s"
  by (simp add: render_def)

lemma template_value_dragged [simp]:
  "template_value (hs\<lparr>draggedElement_h := d\<rparr>) = template_value hs"
  by (rule ext) (simp add: template_value_def stored_def)

lemma denotes_dragged:
  "denotes hs s \<Longrightarrow> denotes (hs\<lparr>draggedElement_h := d\<rparr>) (s\<lparr>draggedElement := d\<rparr>)"
  by (simp add: denotes_def live_def template_value_def stored_def)

lemma denotes_render: "denotes hs (render s) = denotes hs s"
  by (simp add: denotes_def)

lemma templates_frame:
  assumes "separated hs" and "frame hs hs'" and "templates_h hs' = templates_h hs"
  shows "map (template_value hs') (templates_h hs') = map (template_value hs) (templates_h hs)"
  unfolding assms(3)
  by (intro map_cong refl) (simp add: template_value_def frame_stored(2) [OF assms(1,2)])

lemma denotesI:
  assumes "separated hs" and "denotes hs s" and "frame hs hs'"
    and "templates_h hs' = templates_h hs" and "templates s' = templates s"
    and "live hs' = components s'" and "draggedElement_h hs' = draggedElement s'"
    and "distinct (arrays (store_of hs') (components_ref hs'))"
  shows "denotes hs' s'"
  using assms(2,5-8) templates_frame [OF assms(1,3,4)] by (simp add: denotes_def)

lemma drop_simulation:
  assumes sep: "separated hs" and den: "denotes hs s"
  shows "case drop_handler_h placeholder componentType now hs of
           Inl e \<Rightarrow> drop_handler placeholder componentType now s = Inl e
         | Inr hs' \<Rightarrow> \<exists>s'. drop_handler placeholder componentType now s = Inr s' \<and> denotes hs' s'"
proof -
  let ?st = "store_of hs"
  let ?arr = "arrays ?st (components_ref hs)"
  from den have comps: "components s = map (objects ?st) ?arr"
    and dr: "draggedElement s = draggedElement_h hs" and dist: "distinct ?arr"
    by (simp_all add: denotes_def live_def)
  have len: "length (components s) = length ?arr" by (simp add: comps)
  let ?i = "case placeholder of Some p \<Rightarrow> p | None \<Rightarrow> length ?arr"
  have i: "(case placeholder of Some p \<Rightarrow> p | None \<Rightarrow> length (components s)) = ?i"
    by (cases placeholder) (simp_all add: len)
  have noop: "denotes (hs\<lparr>draggedElement_h := None\<rparr>) (render (s\<lparr>draggedElement := None\<rparr>))"
    using denotes_dragged [OF den] by (simp add: denotes_render)
  show ?thesis
  proof (cases "draggedElement_h hs")
    case (Some fromIndex)
    let ?to = "normalize_toIndex fromIndex ?i"
    show ?thesis
    proof (cases "fromIndex = ?to")
      case True
      with Some dr noop show ?thesis
        by (simp add: drop_handler_h_def drop_handler_def Let_def i)
    next
      case False
      show ?thesis
      proof (cases "fromIndex < length ?arr")
        case nolt: False
        with Some dr False show ?thesis
          by (simp add: drop_handler_h_def drop_handler_def Let_def i splice_remove_def len)
      next
        case True
        let ?new = "splice_insert ?to (?arr ! fromIndex)
            (take fromIndex ?arr @ drop (Suc fromIndex) ?arr)"
        let ?hs' = "hs\<lparr>store_of := ?st\<lparr>arrays := (arrays ?st)(components_ref hs := ?new)\<rparr>,
            draggedElement_h := None\<rparr>"
        let ?s' = "render (s\<lparr>components := splice_insert ?to (components s ! fromIndex)
            (take fromIndex (components s) @ drop (Suc fromIndex) (components s)),
            draggedElement := None\<rparr>)"
        have h: "drop_handler_h placeholder componentType now hs = Inr ?hs'"
          using Some False True by (simp add: drop_handler_h_def Let_def splice_remove_def)
        have v: "drop_handler placeholder componentType now s = Inr ?s'"
          using Some dr False True
          by (simp add: drop_handler_def Let_def splice_remove_def i len)
        have l: "live ?hs' = components ?s'"
          using True by (simp add: live_def comps map_splice_insert take_map drop_map)
        have "denotes ?hs' ?s'"
          using frame_drop_handler_h [OF sep h] l distinct_move [OF dist True]
          by (intro denotesI [OF sep den]) simp_all
        with h v show ?thesis by simp
      qed
    qed
  next
    case None
    show ?thesis
    proof (cases "componentType = []")
      case True
      with None dr noop show ?thesis
        by (simp add: drop_handler_h_def drop_handler_def Let_def)
    next
      case False
      let ?n = "next_addr ?st"
      let ?c = "createNewComponent componentType now"
      let ?hs' = "hs\<lparr>store_of := ?st\<lparr>objects := (objects ?st)(?n := ?c), next_addr := Suc ?n,
            arrays := (arrays ?st)(components_ref hs := splice_insert ?i ?n ?arr)\<rparr>,
          draggedElement_h := None\<rparr>"
      let ?s' = "render (s\<lparr>components := splice_insert ?i ?c (components s),
          draggedElement := None\<rparr>)"
      have h: "drop_handler_h placeholder componentType now hs = Inr ?hs'"
        using None False by (simp add: drop_handler_h_def Let_def new_object_def)
      have v: "drop_handler placeholder componentType now s = Inr ?s'"
        using None dr False by (simp add: drop_handler_def Let_def i)
      have fresh: "?n \<notin> set ?arr" using separatedD(2) [OF sep, of ?n] by auto
      then have m: "map ((objects ?st)(?n := ?c)) ?arr = map (objects ?st) ?arr"
        by (intro map_cong refl) auto
      have l: "live ?hs' = components ?s'"
        by (simp add: live_def comps map_splice_insert m)
      have "denotes ?hs' ?s'"
        using frame_drop_handler_h [OF sep h] l distinct_splice_insert [OF dist fresh]
        by (intro denotesI [OF sep den]) simp_all
      with h v show ?thesis by simp
    qed
  qed
qed

lemma input_simulation:
  assumes sep: "separated hs" and den: "denotes hs s"
  shows "denotes (input_handler_h componentId property v hs) (input_handler componentId property v s)"
proof -
  let ?st = "store_of hs"
  let ?arr = "arrays ?st (components_ref hs)"
  from den have comps: "components s = map (objects ?st) ?arr" and dist: "distinct ?arr"
    by (simp_all add: denotes_def live_def)
  have f: "find (\<lambda>c. c_id c = componentId) (components s) =
      map_option (objects ?st) (find (\<lambda>r. c_id (objects ?st r) = componentId) ?arr)"
    unfolding comps by (rule find_map_eq)
  show ?thesis
  proof (cases "find (\<lambda>r. c_id (objects ?st r) = componentId) ?arr")
    case None
    with f den show ?thesis by (simp add: input_handler_h_def input_handler_def)
  next
    case (Some r)
    show ?thesis
    proof (cases "property = ''content'' \<or> property = ''key'' \<or> property = ''value''")
      case False
      with Some f den show ?thesis by (simp add: input_handler_h_def input_handler_def)
    next
      case True
      let ?hs' = "hs\<lparr>store_of := ?st\<lparr>objects := (objects ?st)
            (r := set_property property v (objects ?st r))\<rparr>\<rparr>"
      let ?s' = "updatePreviewAndVariables (s\<lparr>components :=
          update_first (\<lambda>c. c_id c = componentId) (set_property property v) (components s)\<rparr>)"
      have h: "input_handler_h componentId property v hs = ?hs'"
        using Some True by (simp add: input_handler_h_def Let_def)
      have v: "input_handler componentId property v s = ?s'"
        using Some f True by (simp add: input_handler_def)
      have l: "live ?hs' = components ?s'"
        using map_upd_first [of ?arr "\<lambda>c. c_id c = componentId" "objects ?st" r
            "set_property property v", OF dist Some]
        by (simp add: live_def comps)
      have fr: "frame hs ?hs'" using frame_input_handler_h [OF sep, of componentId property v] h
        by simp
      have "denotes ?hs' ?s'"
        using l dist den by (intro denotesI [OF sep den fr]) (simp_all add: denotes_def)
      then show ?thesis by (simp only: h v)
    qed
  qed
qed

lemma delete_simulation:
  assumes sep: "separated hs" and den: "denotes hs s"
  shows "denotes (delete_component_h componentId hs) (delete_component componentId s)"
proof -
  let ?st = "store_of hs"
  let ?arr = "arrays ?st (components_ref hs)"
  from den have comps: "components s = map (objects ?st) ?arr" and dist: "distinct ?arr"
    by (simp_all add: denotes_def live_def)
  let ?hs' = "delete_component_h componentId hs"
  have l: "live ?hs' = components (delete_component componentId s)"
    by (simp add: live_def delete_component_h_def delete_component_def new_array_def comps
        filter_map comp_def Let_def)
  have d: "distinct (arrays (store_of ?hs') (components_ref ?hs'))"
    using dist by (simp add: delete_component_h_def new_array_def Let_def)
  show ?thesis
    using l d den
    by (intro denotesI [OF sep den frame_delete_component_h [OF sep]])
      (simp_all add: delete_component_h_def delete_component_def new_array_def denotes_def Let_def)
qed

lemma save_simulation:
  assumes sep: "separated hs" and den: "denotes hs s"
  shows "denotes (saveTemplateForm_submit_h templateName now hs)
     (snd (saveTemplateForm_submit templateName now True s))"
proof (cases "trim templateName = []")
  case True
  with den show ?thesis by (simp add: saveTemplateForm_submit_h_def saveTemplateForm_submit_def)
next
  case False
  let ?hs' = "saveTemplateForm_submit_h templateName now hs"
  let ?s' = "snd (saveTemplateForm_submit templateName now True s)"
  from save_copies_live [OF sep False, of now] obtain t where
    t: "templates_h ?hs' = templates_h hs @ [t]" "tr_id t = now" "tr_name t = trim templateName"
      "stored ?hs' t = live hs" "live ?hs' = live hs"
    by blast
  note fr = frame_saveTemplateForm_submit_h [OF sep, of templateName now]
  obtain a st1 where c: "json_copy (components_ref hs) (store_of hs) = (a, st1)"
    by (cases "json_copy (components_ref hs) (store_of hs)")
  have ne: "components_ref hs \<noteq> a"
    using separatedD(1) [OF sep] json_copy_props(1) [OF c] by simp
  have hs': "store_of ?hs' = st1" "components_ref ?hs' = components_ref hs"
    "draggedElement_h ?hs' = draggedElement_h hs"
    using False c by (simp_all add: saveTemplateForm_submit_h_def Let_def)
  have arr: "arrays st1 (components_ref hs) = arrays (store_of hs) (components_ref hs)"
    using json_copy_props(3) [OF c ne] .
  have old: "map (template_value ?hs') (templates_h hs) = map (template_value hs) (templates_h hs)"
    by (intro map_cong refl) (simp add: template_value_def frame_stored(2) [OF sep fr])
  have s': "templates ?s' = templates s @
      [\<lparr>t_id = now, t_name = trim templateName, t_components = components s\<rparr>]"
    "components ?s' = components s" "draggedElement ?s' = draggedElement s"
    using False by (simp_all add: templates_submit Let_def)
  from den have d: "live hs = components s" "map (template_value hs) (templates_h hs) = templates s"
    "draggedElement_h hs = draggedElement s"
    "distinct (arrays (store_of hs) (components_ref hs))"
    by (simp_all add: denotes_def)
  show ?thesis
    unfolding denotes_def s' hs' arr t(1,5)
    using d old t(2,3,4) by (simp add: template_value_def)
qed

lemma load_simulation:
  assumes sep: "separated hs" and den: "denotes hs s"
  shows "denotes (load_template_h templateId hs) (load_template templateId s)"
proof -
  from den have ts: "templates s = map (template_value hs) (templates_h hs)"
    by (simp add: denotes_def)
  have f: "find (\<lambda>t. t_id t = templateId) (templates s) =
      map_option (template_value hs) (find (\<lambda>t. tr_id t = templateId) (templates_h hs))"
    unfolding ts using find_map_eq [of "\<lambda>t. t_id t = templateId" "template_value hs" "templates_h hs"]
    by (simp add: template_value_def)
  show ?thesis
  proof (cases "find (\<lambda>t. tr_id t = templateId) (templates_h hs)")
    case None
    with f den show ?thesis by (simp add: load_template_h_def load_template_def)
  next
    case (Some t)
    obtain a st1 where c: "json_copy (tr_components t) (store_of hs) = (a, st1)"
      by (cases "json_copy (tr_components t) (store_of hs)")
    let ?hs' = "load_template_h templateId hs"
    let ?s' = "render (s\<lparr>components := stored hs t\<rparr>)"
    have h: "?hs' = hs\<lparr>store_of := st1, components_ref := a\<rparr>"
      using Some c by (simp add: load_template_h_def)
    have v: "load_template templateId s = ?s'"
      using Some f by (simp add: load_template_def template_value_def)
    have l: "live ?hs' = components ?s'"
      using load_copies_stored [OF Some] by simp
    have d: "distinct (arrays (store_of ?hs') (components_ref ?hs'))"
      unfolding h using json_copy_distinct [OF c] by simp
    have "denotes ?hs' ?s'"
      using l d den
      by (intro denotesI [OF sep den frame_load_template_h [OF sep]])
        (simp_all add: h denotes_def)
    then show ?thesis by (simp only: v)
  qed
qed

lemma gesture_simulation:
  assumes sep: "separated hs" and den: "denotes hs s"
  shows "case gesture_h g hs of
           Inl e \<Rightarrow> gesture_value g s = Inl e
         | Inr hs' \<Rightarrow> \<exists>s'. gesture_value g s = Inr s' \<and> denotes hs' s'"
proof (cases g)
  case (Move fromIndex placeholder)
  have "denotes (hs\<lparr>draggedElement_h := Some fromIndex\<rparr>) (dragstart fromIndex s)"
    unfolding dragstart_def using den by (rule denotes_dragged)
  from drop_simulation [OF _ this, of "Some placeholder" "[]" 0] sep Move show ?thesis
    by (auto split: sum.splits)
next
  case (Insert placeholder componentType now)
  with drop_simulation [OF sep den, of "Some placeholder" componentType now] show ?thesis
    by (auto split: sum.splits)
next
  case (Edit componentId property v)
  with input_simulation [OF sep den] show ?thesis by simp
next
  case (Delete componentId)
  with delete_simulation [OF sep den] show ?thesis by simp
next
  case (Save templateName now)
  with save_simulation [OF sep den] show ?thesis by simp
next
  case (Load templateId)
  with load_simulation [OF sep den] show ?thesis by simp
qed

lemma run_simulation:
  "separated hs \<Longrightarrow> denotes hs s \<Longrightarrow>
   (case run_h gs hs of
      Inl e \<Rightarrow> run_value gs s = Inl e
    | Inr hs' \<Rightarrow> \<exists>s'. run_value gs s = Inr s' \<and> denotes hs' s')"
proof (induction gs arbitrary: hs s)
  case Nil
  then show ?case by simp
next
  case (Cons g gs)
  note sim = gesture_simulation [OF Cons.prems, of g]
  show ?case
  proof (cases "gesture_h g hs")
    case (Inl e)
    with sim show ?thesis by simp
  next
    case (Inr hs1)
    with sim obtain s1 where s1: "gesture_value g s = Inr s1" "denotes hs1 s1" by auto
    have "separated hs1"
      by (rule frame_separated [OF Cons.prems(1) frame_gesture_h [OF Cons.prems(1) Inr]])
    from Cons.IH [OF this s1(2)] Inr s1(1) show ?thesis by (auto split: sum.splits)
  qed
qed

lemma store_model_refines:
  assumes "run_h gs initial_heap_state = Inr hs"
  shows "\<exists>s. run_value gs initial_state = Inr s \<and> live hs = components s
     \<and> map (template_value hs) (templates_h hs) = templates s"
proof -
  have "denotes initial_heap_state initial_state"
    by (simp add: denotes_def initial_heap_state_def initial_state_def live_def)
  from run_simulation [OF separated_initial this, of gs] assms show ?thesis
    by (auto simp: denotes_def)
qed

end
